theory Spec2Isabelle
  imports Complex_Main "HOL-Library.Log_Nat"
begin

section \<open>Python values used by the sale order line\<close>

text \<open>
  The three fields of a sale order line that the module touches are Odoo \<open>Float\<close>
  fields, so their values are Python floats (IEEE 754 binary64). A float is modelled by
  the rational it denotes, or one of the two infinities, or NaN. The two zeros are
  identified: the code never observes the sign of a zero (both are falsy, both compare
  \<open><= 0\<close>, and dividing by either raises \<open>ZeroDivisionError\<close>).
\<close>

datatype pyfloat = Fin rat | PosInf | NegInf | NaN

datatype error = UserError | ZeroDivisionError | RecursionError | UndefinedTable

definition pow2 :: "int \<Rightarrow> rat" where
  "pow2 e = (if 0 \<le> e then 2 ^ nat e else 1 / 2 ^ nat (- e))"

definition ilog2 :: "rat \<Rightarrow> int" where
  \<comment> \<open>\<open>\<lfloor>log\<^sub>2 x\<rfloor>\<close> for a positive rational \<open>x\<close>\<close>
  "ilog2 x = (case quotient_of x of (a, b) \<Rightarrow>
     (let k = bitlen a - bitlen b in if pow2 k \<le> x then k else k - 1))"

definition round_half_even :: "rat \<Rightarrow> int" where
  "round_half_even m =
     (let f = \<lfloor>m\<rfloor>; r = m - of_int f
      in if r < 1 / 2 then f else if 1 / 2 < r then f + 1 else if even f then f else f + 1)"

definition round64 :: "rat \<Rightarrow> pyfloat" where
  \<comment> \<open>round to nearest, ties to even, with 53 significant bits; the exponent of the last
      place is at least \<open>-1074\<close> (subnormals), and a result of magnitude \<open>2\<^sup>1\<^sup>0\<^sup>2\<^sup>4\<close> or
      more overflows to an infinity\<close>
  "round64 x =
     (if x = 0 then Fin 0
      else let e = max (ilog2 \<bar>x\<bar> - 52) (- 1074);
               y = of_int (round_half_even (x / pow2 e)) * pow2 e
           in if y = 0 then Fin 0
              else if ilog2 \<bar>y\<bar> < 1024 then Fin y
              else if 0 < y then PosInf else NegInf)"

fun fmul :: "pyfloat \<Rightarrow> pyfloat \<Rightarrow> pyfloat" where
  "fmul (Fin a) (Fin b) = round64 (a * b)"
| "fmul NaN _ = NaN"
| "fmul _ NaN = NaN"
| "fmul (Fin a) PosInf = (if a = 0 then NaN else if 0 < a then PosInf else NegInf)"
| "fmul (Fin a) NegInf = (if a = 0 then NaN else if 0 < a then NegInf else PosInf)"
| "fmul PosInf (Fin b) = (if b = 0 then NaN else if 0 < b then PosInf else NegInf)"
| "fmul NegInf (Fin b) = (if b = 0 then NaN else if 0 < b then NegInf else PosInf)"
| "fmul PosInf PosInf = PosInf"
| "fmul PosInf NegInf = NegInf"
| "fmul NegInf PosInf = NegInf"
| "fmul NegInf NegInf = PosInf"

fun fdiv :: "pyfloat \<Rightarrow> pyfloat \<Rightarrow> error + pyfloat" where
  "fdiv x (Fin b) =
     (if b = 0 then Inl ZeroDivisionError
      else case x of
             Fin a \<Rightarrow> Inr (round64 (a / b))
           | NaN \<Rightarrow> Inr NaN
           | PosInf \<Rightarrow> Inr (if 0 < b then PosInf else NegInf)
           | NegInf \<Rightarrow> Inr (if 0 < b then NegInf else PosInf))"
| "fdiv x NaN = Inr NaN"
| "fdiv (Fin a) _ = Inr (Fin 0)"
| "fdiv _ _ = Inr NaN"

fun truthy :: "pyfloat \<Rightarrow> bool" where
  \<comment> \<open>Python's \<open>bool(x)\<close>: only zero is falsy\<close>
  "truthy (Fin a) = (a \<noteq> 0)"
| "truthy _ = True"

fun le_zero :: "pyfloat \<Rightarrow> bool" where
  \<comment> \<open>Python's \<open>x <= 0\<close>\<close>
  "le_zero (Fin a) = (a \<le> 0)"
| "le_zero NegInf = True"
| "le_zero _ = False"

section \<open>Sale order line: price and subtotal\<close>

record sale_order_line =
  product_uom_qty :: pyfloat
  price_unit :: pyfloat
  manual_price_subtotal :: pyfloat

datatype field_name = Product_uom_qty | Price_unit | Manual_price_subtotal

text \<open>
  The \<open>vals\<close> dictionary of \<open>write\<close> and \<open>create\<close>, restricted to the three keys the
  overrides read or assign. \<open>vals.get(k)\<close> of a missing key is \<open>None\<close>, which is falsy.
\<close>

type_synonym vals = "field_name \<rightharpoonup> pyfloat"

text \<open>
  The field \<open>price_unit\<close> is declared by the sale application, outside this module; a
  value assigned to it is modelled as the plain float.
\<close>

text \<open>
  A method that assigns fields and may raise returns either \<open>Inr\<close> of the final state or
  \<open>Inl\<close> of the exception together with the state at the moment it was raised, so that
  what was assigned before the exception stays visible.
\<close>

type_synonym 'a raising = "(error \<times> 'a) + 'a"

text \<open>
  The field \<open>manual_price_subtotal\<close> is declared with \<open>digits='Product Price'\<close>: a value
  assigned to it is kept rounded to the number of decimal places of that precision. The
  number is a setting of the database and not part of the module, so it is a parameter
  \<open>digits\<close> of the two methods that assign the field (the usual value is 2). The rounding
  itself is done by the framework (\<open>float_round\<close>, half away from zero). It is modelled
  on the exact value of the float: the nearest decimal with \<open>digits\<close> places, as the
  float nearest to that decimal. The framework works in floating point and moves the value
  away from zero by a few units in the last place before it rounds, so the two can
  differ only for a float that close to a tie. An infinity or NaN is passed on as it is.
\<close>

definition round_half_up :: "rat \<Rightarrow> int" where
  \<comment> \<open>the nearest integer, a tie going away from zero\<close>
  "round_half_up m = (if 0 \<le> m then \<lfloor>m + 1 / 2\<rfloor> else - \<lfloor>- m + 1 / 2\<rfloor>)"

fun float_round :: "nat \<Rightarrow> pyfloat \<Rightarrow> pyfloat" where
  "float_round digits (Fin a) = round64 (of_int (round_half_up (a * 10 ^ digits)) / 10 ^ digits)"
| "float_round digits x = x"

definition compute_manual_subtotal :: "nat \<Rightarrow> sale_order_line list \<Rightarrow> sale_order_line list" where
  "compute_manual_subtotal digits self =
     map (\<lambda>line. line\<lparr>manual_price_subtotal :=
                       float_round digits (fmul (product_uom_qty line) (price_unit line))\<rparr>) self"

definition inverse_line :: "sale_order_line \<Rightarrow> error + sale_order_line" where
  \<comment> \<open>the body of the loop of \<open>_inverse_manual_subtotal\<close>\<close>
  "inverse_line line =
     (if truthy (product_uom_qty line) \<and> truthy (manual_price_subtotal line) then
        if le_zero (product_uom_qty line) then Inl UserError
        else case fdiv (manual_price_subtotal line) (product_uom_qty line) of
               Inl e \<Rightarrow> Inl e
             | Inr v \<Rightarrow> Inr (line\<lparr>price_unit := v\<rparr>)
      else Inr line)"

fun inverse_manual_subtotal :: "sale_order_line list \<Rightarrow> sale_order_line list raising" where
  "inverse_manual_subtotal [] = Inr []"
| "inverse_manual_subtotal (line # rest) =
     (case inverse_line line of
        Inl e \<Rightarrow> Inl (e, line # rest)
      | Inr line' \<Rightarrow>
          (case inverse_manual_subtotal rest of
             Inl (e, rest') \<Rightarrow> Inl (e, line' # rest')
           | Inr rest' \<Rightarrow> Inr (line' # rest')))"


definition onchange_manual_subtotal :: "sale_order_line \<Rightarrow> sale_order_line raising" where
  "onchange_manual_subtotal self =
     (if truthy (product_uom_qty self) \<and> truthy (manual_price_subtotal self) then
        if le_zero (product_uom_qty self) then Inl (UserError, self)
        else case fdiv (manual_price_subtotal self) (product_uom_qty self) of
               Inl e \<Rightarrow> Inl (e, self)
             | Inr v \<Rightarrow> Inr (self\<lparr>price_unit := v\<rparr>)
      else Inr self)"

definition get_truthy :: "vals \<Rightarrow> field_name \<Rightarrow> bool" where
  \<comment> \<open>the truth value of \<open>vals.get(k)\<close>\<close>
  "get_truthy vals k = (case vals k of None \<Rightarrow> False | Some v \<Rightarrow> truthy v)"

fun write_lines :: "sale_order_line list \<Rightarrow> pyfloat \<Rightarrow> vals \<Rightarrow> vals raising" where
  \<comment> \<open>the loop of the \<open>elif\<close> branch of \<open>write\<close>; \<open>s\<close> is \<open>vals['manual_price_subtotal']\<close>\<close>
  "write_lines [] s vals = Inr vals"
| "write_lines (line # rest) s vals =
     (if truthy (product_uom_qty line) \<and> truthy s then
        if le_zero (product_uom_qty line) then Inl (UserError, vals)
        else case fdiv s (product_uom_qty line) of
               Inl e \<Rightarrow> Inl (e, vals)
             | Inr v \<Rightarrow> write_lines rest s (vals(Price_unit \<mapsto> v))
      else write_lines rest s vals)"

text \<open>
  The override of \<open>write\<close> (named \<open>write_override\<close> here) prepares \<open>vals\<close> and hands it to the framework's \<open>write\<close>, which is not part
  of this module: the result \<open>Inr vals'\<close> is the dictionary passed to
  \<open>super().write\<close>. The override itself assigns no field of a record; an \<open>Inl\<close> means
  the exception left the method before \<open>super().write\<close> was reached.
\<close>

definition write_override :: "sale_order_line list \<Rightarrow> vals \<Rightarrow> vals raising" where
  "write_override self vals =
     (case (vals Manual_price_subtotal, vals Product_uom_qty) of
        (Some s, Some q) \<Rightarrow>
          if truthy q \<and> truthy s then
            if le_zero q then Inl (UserError, vals)
            else case fdiv s q of
                   Inl e \<Rightarrow> Inl (e, vals)
                 | Inr v \<Rightarrow> Inr (vals(Price_unit \<mapsto> v))
          else Inr vals
      | (Some s, None) \<Rightarrow> write_lines self s vals
      | (None, _) \<Rightarrow> Inr vals)"

definition create_vals :: "vals \<Rightarrow> error + vals" where
  \<comment> \<open>the body of the loop of \<open>create\<close>\<close>
  "create_vals vals =
     (if get_truthy vals Manual_price_subtotal \<and> get_truthy vals Product_uom_qty then
        case (vals Manual_price_subtotal, vals Product_uom_qty) of
          (Some s, Some q) \<Rightarrow>
            if le_zero q then Inl UserError
            else (case fdiv s q of
                    Inl e \<Rightarrow> Inl e
                  | Inr v \<Rightarrow> Inr (vals(Price_unit \<mapsto> v)))
        | _ \<Rightarrow> Inr vals
      else Inr vals)"

fun create :: "vals list \<Rightarrow> vals list raising" where
  "create [] = Inr []"
| "create (vals # rest) =
     (case create_vals vals of
        Inl e \<Rightarrow> Inl (e, vals # rest)
      | Inr vals' \<Rightarrow>
          (case create rest of
             Inl (e, rest') \<Rightarrow> Inl (e, vals' # rest')
           | Inr rest' \<Rightarrow> Inr (vals' # rest')))"

section \<open>The database seen through the cursor\<close>

text \<open>
  The migration script only talks to the database through \<open>cr.execute\<close> and
  \<open>cr.fetch*\<close>. The tables it names are modelled as lists of rows, in the order a
  sequential scan returns them; a table that does not exist is \<open>None\<close>, and a statement
  that names it fails with PostgreSQL's \<open>UndefinedTable\<close>. Only the columns that the
  statements mention are kept, and a column is nullable (\<open>option\<close>) where a statement
  tests it for \<open>NULL\<close>. Constraints and triggers of the schema are not part of the
  model, and neither is logging.
\<close>

record ir_cron_row =
  cron_id :: int
  cron_name :: string
  cron_active :: bool

record ir_model_data_row =
  imd_id :: int
  imd_module :: string
  imd_name :: string
  imd_model :: string
  imd_res_id :: int
  imd_noupdate :: bool

record account_edi_document_row =
  doc_edi_format_id :: "int option"

record ir_model_row =
  model_id :: int
  model_model :: string

record ir_model_access_row =
  access_id :: int
  access_model_id :: int

record ir_ui_view_row =
  view_id :: int
  view_name :: string
  view_model :: string
  view_inherit_id :: "int option"
  view_arch_db :: string

record database =
  ir_cron :: "ir_cron_row list option"
  ir_model_data :: "ir_model_data_row list option"
  account_edi_document :: "account_edi_document_row list option"
  ir_model :: "ir_model_row list option"
  ir_model_access :: "ir_model_access_row list option"
  ir_ui_view :: "ir_ui_view_row list option"

text \<open>The statements of the script, in the order of their appearance in the source.\<close>

datatype statement =
    Update_ir_cron_active
  | Select_exists_account_edi_document
  | Update_noupdate_edi_fatturaPA
  | Update_noupdate_edi_formats
  | Select_ir_model_wizard
  | Delete_ir_model_access_wizard
  | Delete_ir_model_data_wizard
  | Select_child_views int
  | Delete_ir_model_data_view int
  | Delete_ir_ui_view int
  | Select_settings_views string

text \<open>The cursor: the database of the transaction and the statements executed so far.\<close>

record cursor =
  db :: database
  executed :: "statement list"

definition execute :: "statement \<Rightarrow> database \<Rightarrow> cursor \<Rightarrow> cursor" where
  \<comment> \<open>a statement that succeeded: the new contents and one more entry in the log\<close>
  "execute stmt d cr = cr\<lparr>db := d, executed := executed cr @ [stmt]\<rparr>"

function like :: "string \<Rightarrow> string \<Rightarrow> bool" where
  \<comment> \<open>SQL \<open>text LIKE pattern\<close> (pattern first): \<open>%\<close> matches any sequence of characters and
      \<open>_\<close> any single one. No pattern of the script contains the escape character.\<close>
  "like [] s = (s = [])"
| "like (p # ps) s =
     (if p = CHR ''%'' then like ps s \<or> (case s of [] \<Rightarrow> False | c # cs \<Rightarrow> like (p # ps) cs)
      else (case s of [] \<Rightarrow> False | c # cs \<Rightarrow> (p = CHR ''_'' \<or> p = c) \<and> like ps cs))"
  by pat_completeness auto
termination
  by (relation "measure (\<lambda>(p, s). length p + length s)") auto

subsection \<open>Fix 1: the FatturaPA cron job\<close>

definition fatturapa_cron :: "ir_cron_row \<Rightarrow> bool" where
  \<comment> \<open>the \<open>WHERE\<close> clause of the \<open>UPDATE\<close>\<close>
  "fatturapa_cron r = (like ''%%FatturaPA%%'' (cron_name r) \<and> cron_active r)"

definition update_ir_cron_active :: "cursor \<Rightarrow> error + ((int \<times> string) list \<times> cursor)" where
  "update_ir_cron_active cr =
     (case ir_cron (db cr) of
        None \<Rightarrow> Inl UndefinedTable
      | Some rows \<Rightarrow>
          Inr (map (\<lambda>r. (cron_id r, cron_name r)) (filter fatturapa_cron rows),
               execute Update_ir_cron_active
                 ((db cr)\<lparr>ir_cron :=
                    Some (map (\<lambda>r. if fatturapa_cron r then r\<lparr>cron_active := False\<rparr> else r) rows)\<rparr>)
                 cr))"

definition fix_fatturapa_cron :: "cursor \<Rightarrow> error + cursor" where
  "fix_fatturapa_cron cr =
     (case update_ir_cron_active cr of
        Inl e \<Rightarrow> Inl e
      | Inr (disabled_crons, cr') \<Rightarrow> Inr cr')"

subsection \<open>Fix 2: noupdate for EDI formats\<close>

definition select_exists_account_edi_document :: "cursor \<Rightarrow> bool \<times> cursor" where
  \<comment> \<open>the query on \<open>information_schema.tables\<close>\<close>
  "select_exists_account_edi_document cr =
     (account_edi_document (db cr) \<noteq> None,
      execute Select_exists_account_edi_document (db cr) cr)"

definition edi_fatturaPA_data :: "ir_model_data_row \<Rightarrow> bool" where
  "edi_fatturaPA_data r =
     (imd_module r = ''l10n_it_edi'' \<and> imd_name r = ''edi_fatturaPA'' \<and> imd_noupdate r = False)"

definition update_noupdate_edi_fatturaPA :: "cursor \<Rightarrow> error + (int list \<times> cursor)" where
  "update_noupdate_edi_fatturaPA cr =
     (case ir_model_data (db cr) of
        None \<Rightarrow> Inl UndefinedTable
      | Some rows \<Rightarrow>
          Inr (map imd_id (filter edi_fatturaPA_data rows),
               execute Update_noupdate_edi_fatturaPA
                 ((db cr)\<lparr>ir_model_data :=
                    Some (map (\<lambda>r. if edi_fatturaPA_data r then r\<lparr>imd_noupdate := True\<rparr> else r) rows)\<rparr>)
                 cr))"

definition linked_edi_format :: "account_edi_document_row list \<Rightarrow> ir_model_data_row \<Rightarrow> bool" where
  "linked_edi_format docs r =
     (imd_model r = ''account.edi.format'' \<and> imd_noupdate r = False
      \<and> Some (imd_res_id r) \<in> set (filter (\<lambda>f. f \<noteq> None) (map doc_edi_format_id docs)))"

definition update_noupdate_edi_formats :: "cursor \<Rightarrow> error + ((int \<times> string) list \<times> cursor)" where
  "update_noupdate_edi_formats cr =
     (case (ir_model_data (db cr), account_edi_document (db cr)) of
        (Some rows, Some docs) \<Rightarrow>
          Inr (map (\<lambda>r. (imd_id r, imd_name r)) (filter (linked_edi_format docs) rows),
               execute Update_noupdate_edi_formats
                 ((db cr)\<lparr>ir_model_data :=
                    Some (map (\<lambda>r. if linked_edi_format docs r then r\<lparr>imd_noupdate := True\<rparr> else r)
                            rows)\<rparr>)
                 cr)
      | _ \<Rightarrow> Inl UndefinedTable)"

definition fix_edi_format_noupdate :: "cursor \<Rightarrow> error + cursor" where
  "fix_edi_format_noupdate cr =
     (case select_exists_account_edi_document cr of
        (table_exists, cr1) \<Rightarrow>
          if \<not> table_exists then Inr cr1
          else (case update_noupdate_edi_fatturaPA cr1 of
                  Inl e \<Rightarrow> Inl e
                | Inr (fattura, cr2) \<Rightarrow>
                    (case update_noupdate_edi_formats cr2 of
                       Inl e \<Rightarrow> Inl e
                     | Inr (updated, cr3) \<Rightarrow> Inr cr3)))"

subsection \<open>Fix 3: project.delete.wizard\<close>

definition wizard_ids :: "ir_model_row list \<Rightarrow> int list" where
  \<comment> \<open>\<open>SELECT id FROM ir_model WHERE model = 'project.delete.wizard'\<close>, the first query
      of the step and the subquery of its first \<open>DELETE\<close>\<close>
  "wizard_ids models = map model_id (filter (\<lambda>m. model_model m = ''project.delete.wizard'') models)"

definition select_ir_model_wizard :: "cursor \<Rightarrow> error + (int list \<times> cursor)" where
  "select_ir_model_wizard cr =
     (case ir_model (db cr) of
        None \<Rightarrow> Inl UndefinedTable
      | Some models \<Rightarrow> Inr (wizard_ids models, execute Select_ir_model_wizard (db cr) cr))"

definition delete_ir_model_access_wizard :: "cursor \<Rightarrow> error + (int list \<times> cursor)" where
  "delete_ir_model_access_wizard cr =
     (case (ir_model_access (db cr), ir_model (db cr)) of
        (Some rows, Some models) \<Rightarrow>
          Inr (map access_id (filter (\<lambda>r. access_model_id r \<in> set (wizard_ids models)) rows),
               execute Delete_ir_model_access_wizard
                 ((db cr)\<lparr>ir_model_access :=
                    Some (filter (\<lambda>r. access_model_id r \<notin> set (wizard_ids models)) rows)\<rparr>)
                 cr)
      | _ \<Rightarrow> Inl UndefinedTable)"

definition wizard_data :: "ir_model_data_row \<Rightarrow> bool" where
  \<comment> \<open>the \<open>WHERE\<close> clause of the second \<open>DELETE\<close>\<close>
  "wizard_data r = like ''%%project_delete_wizard%%'' (imd_name r)"

definition delete_ir_model_data_wizard :: "cursor \<Rightarrow> error + ((int \<times> string) list \<times> cursor)" where
  "delete_ir_model_data_wizard cr =
     (case ir_model_data (db cr) of
        None \<Rightarrow> Inl UndefinedTable
      | Some rows \<Rightarrow>
          Inr (map (\<lambda>r. (imd_id r, imd_name r)) (filter wizard_data rows),
               execute Delete_ir_model_data_wizard
                 ((db cr)\<lparr>ir_model_data := Some (filter (\<lambda>r. \<not> wizard_data r) rows)\<rparr>)
                 cr))"

definition fix_project_delete_wizard :: "cursor \<Rightarrow> error + cursor" where
  "fix_project_delete_wizard cr =
     (case select_ir_model_wizard cr of
        Inl e \<Rightarrow> Inl e
      | Inr (model_ids, cr1) \<Rightarrow>
          if model_ids = [] then Inr cr1
          else (case delete_ir_model_access_wizard cr1 of
                  Inl e \<Rightarrow> Inl e
                | Inr (deleted, cr2) \<Rightarrow>
                    (case delete_ir_model_data_wizard cr2 of
                       Inl e \<Rightarrow> Inl e
                     | Inr (deleted', cr3) \<Rightarrow> Inr cr3)))"

subsection \<open>Fix 4: cascading deletion of settings views\<close>

definition select_child_views :: "cursor \<Rightarrow> int \<Rightarrow> error + ((int \<times> string) list \<times> cursor)" where
  "select_child_views cr v =
     (case ir_ui_view (db cr) of
        None \<Rightarrow> Inl UndefinedTable
      | Some views \<Rightarrow>
          Inr (map (\<lambda>r. (view_id r, view_name r)) (filter (\<lambda>r. view_inherit_id r = Some v) views),
               execute (Select_child_views v) (db cr) cr))"

definition view_data :: "int \<Rightarrow> ir_model_data_row \<Rightarrow> bool" where
  \<comment> \<open>\<open>res_id = %s AND model = 'ir.ui.view'\<close>\<close>
  "view_data v r = (imd_res_id r = v \<and> imd_model r = ''ir.ui.view'')"

definition delete_ir_model_data_view :: "cursor \<Rightarrow> int \<Rightarrow> error + cursor" where
  "delete_ir_model_data_view cr v =
     (case ir_model_data (db cr) of
        None \<Rightarrow> Inl UndefinedTable
      | Some rows \<Rightarrow>
          Inr (execute (Delete_ir_model_data_view v)
                 ((db cr)\<lparr>ir_model_data := Some (filter (\<lambda>r. \<not> view_data v r) rows)\<rparr>) cr))"

definition delete_ir_ui_view :: "cursor \<Rightarrow> int \<Rightarrow> error + ((int \<times> string) list \<times> cursor)" where
  "delete_ir_ui_view cr v =
     (case ir_ui_view (db cr) of
        None \<Rightarrow> Inl UndefinedTable
      | Some views \<Rightarrow>
          Inr (map (\<lambda>r. (view_id r, view_name r)) (filter (\<lambda>r. view_id r = v) views),
               execute (Delete_ir_ui_view v)
                 ((db cr)\<lparr>ir_ui_view := Some (filter (\<lambda>r. view_id r \<noteq> v) views)\<rparr>) cr))"

fun for_views ::
  "(cursor \<Rightarrow> int \<Rightarrow> error + (nat \<times> cursor)) \<Rightarrow> int list \<Rightarrow> nat \<Rightarrow> cursor \<Rightarrow> error + (nat \<times> cursor)"
where
  \<comment> \<open>\<open>for view_id, ... in rows: count += delete(cr, view_id, ...)\<close>\<close>
  "for_views delete [] count cr = Inr (count, cr)"
| "for_views delete (v # vs) count cr =
     (case delete cr v of
        Inl e \<Rightarrow> Inl e
      | Inr (k, cr') \<Rightarrow> for_views delete vs (count + k) cr')"

text \<open>
  \<open>_delete_view_cascade\<close> calls itself for every child view, with nothing that bounds the
  depth. The first argument is the number of nested calls that the interpreter's stack
  still allows: when it is used up, Python raises \<open>RecursionError\<close>. The arguments
  \<open>view_name\<close> and \<open>module\<close> are only logged and are left out.
\<close>

fun delete_view_cascade :: "nat \<Rightarrow> cursor \<Rightarrow> int \<Rightarrow> error + (nat \<times> cursor)" where
  "delete_view_cascade 0 cr v = Inl RecursionError"
| "delete_view_cascade (Suc depth) cr v =
     (case select_child_views cr v of
        Inl e \<Rightarrow> Inl e
      | Inr (child_views, cr1) \<Rightarrow>
          (case for_views (delete_view_cascade depth) (map fst child_views) 0 cr1 of
             Inl e \<Rightarrow> Inl e
           | Inr (deleted_count, cr2) \<Rightarrow>
               (case delete_ir_model_data_view cr2 v of
                  Inl e \<Rightarrow> Inl e
                | Inr cr3 \<Rightarrow>
                    (case delete_ir_ui_view cr3 v of
                       Inl e \<Rightarrow> Inl e
                     | Inr (deleted, cr4) \<Rightarrow>
                         Inr (if deleted \<noteq> [] then deleted_count + 1 else deleted_count, cr4)))))"

definition quote :: string where
  "quote = [CHR 0x27]"

definition problematic_patterns :: "string list" where
  "problematic_patterns =
     [''%hasclass('settings')%'',
      ''%hasclass('' @ quote @ quote @ ''settings'' @ quote @ quote @ '')%'',
      ''%@id='account_vendor_bills'%'',
      ''%@id='' @ quote @ quote @ ''account_vendor_bills'' @ quote @ quote @ ''%'']"

definition settings_view :: "string \<Rightarrow> ir_ui_view_row \<Rightarrow> bool" where
  \<comment> \<open>the \<open>WHERE\<close> clause of the query for one pattern\<close>
  "settings_view pattern v =
     (view_model v = ''res.config.settings'' \<and> view_inherit_id v \<noteq> None
      \<and> like pattern (view_arch_db v))"

definition left_join_data ::
  "ir_model_data_row list \<Rightarrow> ir_ui_view_row \<Rightarrow> (int \<times> string \<times> string option) list" where
  \<comment> \<open>\<open>LEFT JOIN ir_model_data d ON d.res_id = v.id AND d.model = 'ir.ui.view'\<close>\<close>
  "left_join_data rows v =
     (case filter (view_data (view_id v)) rows of
        [] \<Rightarrow> [(view_id v, view_name v, None)]
      | ds \<Rightarrow> map (\<lambda>d. (view_id v, view_name v, Some (imd_module d))) ds)"

definition select_settings_views ::
  "cursor \<Rightarrow> string \<Rightarrow> error + ((int \<times> string \<times> string option) list \<times> cursor)" where
  "select_settings_views cr pattern =
     (case (ir_ui_view (db cr), ir_model_data (db cr)) of
        (Some views, Some rows) \<Rightarrow>
          Inr (concat (map (left_join_data rows) (filter (settings_view pattern) views)),
               execute (Select_settings_views pattern) (db cr) cr)
      | _ \<Rightarrow> Inl UndefinedTable)"

fun for_patterns :: "nat \<Rightarrow> string list \<Rightarrow> nat \<Rightarrow> cursor \<Rightarrow> error + (nat \<times> cursor)" where
  "for_patterns depth [] total_deleted cr = Inr (total_deleted, cr)"
| "for_patterns depth (pattern # patterns) total_deleted cr =
     (case select_settings_views cr pattern of
        Inl e \<Rightarrow> Inl e
      | Inr (views_to_delete, cr1) \<Rightarrow>
          (case for_views (delete_view_cascade depth) (map fst views_to_delete) total_deleted cr1 of
             Inl e \<Rightarrow> Inl e
           | Inr (total_deleted', cr2) \<Rightarrow> for_patterns depth patterns total_deleted' cr2))"

definition fix_incompatible_settings_views :: "nat \<Rightarrow> cursor \<Rightarrow> error + cursor" where
  "fix_incompatible_settings_views depth cr =
     (case for_patterns depth problematic_patterns 0 cr of
        Inl e \<Rightarrow> Inl e
      | Inr (total_deleted, cr') \<Rightarrow> Inr cr')"

subsection \<open>The migration\<close>

definition falsy_version :: "string option \<Rightarrow> bool" where
  \<comment> \<open>\<open>not version\<close>: \<open>None\<close> or the empty string\<close>
  "falsy_version version = (case version of None \<Rightarrow> True | Some s \<Rightarrow> s = [])"

definition migrate :: "nat \<Rightarrow> cursor \<Rightarrow> string option \<Rightarrow> error + cursor" where
  "migrate depth cr version =
     (if falsy_version version then Inr cr
      else (case fix_fatturapa_cron cr of
              Inl e \<Rightarrow> Inl e
            | Inr cr1 \<Rightarrow>
                (case fix_edi_format_noupdate cr1 of
                   Inl e \<Rightarrow> Inl e
                 | Inr cr2 \<Rightarrow>
                     (case fix_project_delete_wizard cr2 of
                        Inl e \<Rightarrow> Inl e
                      | Inr cr3 \<Rightarrow> fix_incompatible_settings_views depth cr3))))"

section \<open>Notions used to state the properties\<close>

definition views_of :: "database \<Rightarrow> ir_ui_view_row list" where
  "views_of d = (case ir_ui_view d of None \<Rightarrow> [] | Some views \<Rightarrow> views)"

definition inherits :: "ir_ui_view_row list \<Rightarrow> (int \<times> int) set" where
  \<comment> \<open>the parent reference: \<open>(c, p)\<close> when a row with id \<open>c\<close> has \<open>inherit_id = p\<close>\<close>
  "inherits views = {(view_id r, p) | r p. r \<in> set views \<and> view_inherit_id r = Some p}"

definition subtree :: "ir_ui_view_row list \<Rightarrow> int \<Rightarrow> int set" where
  \<comment> \<open>\<open>v\<close> and the ids of the views that inherit from it, directly or not\<close>
  "subtree views v = {x. (x, v) \<in> (inherits views)\<^sup>*}"

definition without_views :: "int set \<Rightarrow> database \<Rightarrow> database" where
  \<comment> \<open>the database with the views whose id is in \<open>S\<close> and their metadata rows removed\<close>
  "without_views S d =
     d\<lparr>ir_ui_view := map_option (filter (\<lambda>r. view_id r \<notin> S)) (ir_ui_view d),
       ir_model_data :=
         map_option (filter (\<lambda>r. \<not> (imd_model r = ''ir.ui.view'' \<and> imd_res_id r \<in> S)))
           (ir_model_data d)\<rparr>"

definition incompatible :: "ir_ui_view_row \<Rightarrow> bool" where
  \<comment> \<open>a settings view that inherits and whose definition matches a deprecated pattern\<close>
  "incompatible r = (\<exists>pattern \<in> set problematic_patterns. settings_view pattern r)"

definition condemned :: "ir_ui_view_row list \<Rightarrow> int set" where
  \<comment> \<open>the ids of the incompatible views and of the views that inherit from one\<close>
  "condemned views = (\<Union>r \<in> {r \<in> set views. incompatible r}. subtree views (view_id r))"

definition view_tables_exist :: "database \<Rightarrow> bool" where
  "view_tables_exist d = (ir_ui_view d \<noteq> None \<and> ir_model_data d \<noteq> None)"

definition closed :: "ir_ui_view_row list \<Rightarrow> int set \<Rightarrow> bool" where
  \<comment> \<open>a set of ids that contains every view inheriting from one of its members\<close>
  "closed views S = (\<forall>(x, y) \<in> inherits views. y \<in> S \<longrightarrow> x \<in> S)"

text \<open>What each repair step leaves behind.\<close>

definition cron_repaired :: "database \<Rightarrow> bool" where
  "cron_repaired d =
     (case ir_cron d of None \<Rightarrow> False | Some rows \<Rightarrow> \<forall>r \<in> set rows. \<not> fatturapa_cron r)"

definition edi_repaired :: "database \<Rightarrow> bool" where
  "edi_repaired d =
     (case account_edi_document d of
        None \<Rightarrow> True
      | Some docs \<Rightarrow>
          (case ir_model_data d of
             None \<Rightarrow> False
           | Some rows \<Rightarrow> \<forall>r \<in> set rows. \<not> edi_fatturaPA_data r \<and> \<not> linked_edi_format docs r))"

definition wizard_repaired :: "database \<Rightarrow> bool" where
  "wizard_repaired d =
     (case ir_model d of
        None \<Rightarrow> False
      | Some models \<Rightarrow>
          wizard_ids models = [] \<or>
          (case (ir_model_access d, ir_model_data d) of
             (Some acc, Some rows) \<Rightarrow>
               (\<forall>a \<in> set acc. access_model_id a \<notin> set (wizard_ids models))
               \<and> (\<forall>r \<in> set rows. \<not> wizard_data r)
           | _ \<Rightarrow> False))"

definition views_repaired :: "database \<Rightarrow> bool" where
  "views_repaired d = (view_tables_exist d \<and> (\<forall>r \<in> set (views_of d). \<not> incompatible r))"

definition shrunk :: "database \<Rightarrow> database \<Rightarrow> bool" where
  \<comment> \<open>\<open>d'\<close> is \<open>d\<close> with rows removed from \<open>ir_model_access\<close> and \<open>ir_model_data\<close>, and any
      change to \<open>ir_ui_view\<close>\<close>
  "shrunk d d' =
     (ir_cron d' = ir_cron d \<and> account_edi_document d' = account_edi_document d
      \<and> ir_model d' = ir_model d
      \<and> rel_option (\<lambda>rows rows'. set rows' \<subseteq> set rows) (ir_model_access d) (ir_model_access d')
      \<and> rel_option (\<lambda>rows rows'. set rows' \<subseteq> set rows) (ir_model_data d) (ir_model_data d'))"

section \<open>Example databases\<close>

definition tree_views :: "ir_ui_view_row list" where
  \<comment> \<open>view 1 with the two children 2 and 3 and the grandchild 4 (a child of 2), and an
      unrelated view 5\<close>
  "tree_views =
     [\<lparr>view_id = 1, view_name = ''settings'', view_model = ''res.config.settings'',
       view_inherit_id = None, view_arch_db = ''<form/>''\<rparr>,
      \<lparr>view_id = 2, view_name = ''child_a'', view_model = ''res.config.settings'',
       view_inherit_id = Some 1, view_arch_db = ''<xpath expr=//div[hasclass('settings')]>''\<rparr>,
      \<lparr>view_id = 3, view_name = ''child_b'', view_model = ''res.config.settings'',
       view_inherit_id = Some 1, view_arch_db = ''<field name=x/>''\<rparr>,
      \<lparr>view_id = 4, view_name = ''grandchild'', view_model = ''res.config.settings'',
       view_inherit_id = Some 2, view_arch_db = ''<field name=y/>''\<rparr>,
      \<lparr>view_id = 5, view_name = ''other'', view_model = ''res.partner'',
       view_inherit_id = None, view_arch_db = ''<form/>''\<rparr>]"

definition tree_data :: "ir_model_data_row list" where
  "tree_data =
     [\<lparr>imd_id = 10, imd_module = ''base'', imd_name = ''settings'', imd_model = ''ir.ui.view'',
       imd_res_id = 1, imd_noupdate = False\<rparr>,
      \<lparr>imd_id = 11, imd_module = ''l10n_it_edi'', imd_name = ''child_a'', imd_model = ''ir.ui.view'',
       imd_res_id = 2, imd_noupdate = False\<rparr>,
      \<lparr>imd_id = 12, imd_module = ''base'', imd_name = ''partner_4'', imd_model = ''res.partner'',
       imd_res_id = 4, imd_noupdate = False\<rparr>,
      \<lparr>imd_id = 13, imd_module = ''base'', imd_name = ''other'', imd_model = ''ir.ui.view'',
       imd_res_id = 5, imd_noupdate = False\<rparr>]"

definition tree_cr :: cursor where
  "tree_cr =
     \<lparr>db = \<lparr>ir_cron = Some [], ir_model_data = Some tree_data, account_edi_document = None,
             ir_model = Some [], ir_model_access = Some [], ir_ui_view = Some tree_views\<rparr>,
      executed = []\<rparr>"

definition cycle_cr :: cursor where
  \<comment> \<open>view 1 inherits from view 2 and view 2 from view 1\<close>
  "cycle_cr =
     \<lparr>db = \<lparr>ir_cron = Some [], ir_model_data = Some [], account_edi_document = None,
             ir_model = Some [], ir_model_access = Some [],
             ir_ui_view = Some
               [\<lparr>view_id = 1, view_name = ''a'', view_model = ''res.config.settings'',
                 view_inherit_id = Some 2, view_arch_db = ''<form/>''\<rparr>,
                \<lparr>view_id = 2, view_name = ''b'', view_model = ''res.config.settings'',
                 view_inherit_id = Some 1, view_arch_db = ''<form/>''\<rparr>]\<rparr>,
      executed = []\<rparr>"

definition legacy_cr :: cursor where
  \<comment> \<open>a database with something to repair for each of the four steps\<close>
  "legacy_cr =
     \<lparr>db = \<lparr>ir_cron = Some
               [\<lparr>cron_id = 1, cron_name = ''Receive FatturaPA'', cron_active = True\<rparr>,
                \<lparr>cron_id = 2, cron_name = ''Mail queue'', cron_active = True\<rparr>],
             ir_model_data = Some (tree_data @
               [\<lparr>imd_id = 20, imd_module = ''l10n_it_edi'', imd_name = ''edi_fatturaPA'',
                 imd_model = ''account.edi.format'', imd_res_id = 7, imd_noupdate = False\<rparr>,
                \<lparr>imd_id = 21, imd_module = ''account_edi_ubl'', imd_name = ''edi_ubl'',
                 imd_model = ''account.edi.format'', imd_res_id = 8, imd_noupdate = False\<rparr>,
                \<lparr>imd_id = 22, imd_module = ''project'', imd_name = ''access_project_delete_wizard'',
                 imd_model = ''ir.model.access'', imd_res_id = 30, imd_noupdate = False\<rparr>]),
             account_edi_document = Some
               [\<lparr>doc_edi_format_id = Some 8\<rparr>, \<lparr>doc_edi_format_id = None\<rparr>],
             ir_model = Some
               [\<lparr>model_id = 40, model_model = ''project.delete.wizard''\<rparr>,
                \<lparr>model_id = 41, model_model = ''res.partner''\<rparr>],
             ir_model_access = Some
               [\<lparr>access_id = 30, access_model_id = 40\<rparr>, \<lparr>access_id = 31, access_model_id = 41\<rparr>],
             ir_ui_view = Some tree_views\<rparr>,
      executed = []\<rparr>"

definition tree_cascaded_db :: database where
  \<comment> \<open>the database of \<open>tree_cr\<close> without view 1 and the views inheriting from it\<close>
  "tree_cascaded_db =
     \<lparr>ir_cron = Some [],
      ir_model_data = Some
        [\<lparr>imd_id = 12, imd_module = ''base'', imd_name = ''partner_4'',
          imd_model = ''res.partner'', imd_res_id = 4, imd_noupdate = False\<rparr>,
         \<lparr>imd_id = 13, imd_module = ''base'', imd_name = ''other'',
          imd_model = ''ir.ui.view'', imd_res_id = 5, imd_noupdate = False\<rparr>],
      account_edi_document = None, ir_model = Some [], ir_model_access = Some [],
      ir_ui_view = Some
        [\<lparr>view_id = 5, view_name = ''other'', view_model = ''res.partner'',
          view_inherit_id = None, view_arch_db = ''<form/>''\<rparr>]\<rparr>"

definition tree_fixed_db :: database where
  \<comment> \<open>the database of \<open>tree_cr\<close> without view 2 and the view 4 inheriting from it\<close>
  "tree_fixed_db =
     \<lparr>ir_cron = Some [],
      ir_model_data = Some
        [\<lparr>imd_id = 10, imd_module = ''base'', imd_name = ''settings'',
          imd_model = ''ir.ui.view'', imd_res_id = 1, imd_noupdate = False\<rparr>,
         \<lparr>imd_id = 12, imd_module = ''base'', imd_name = ''partner_4'',
          imd_model = ''res.partner'', imd_res_id = 4, imd_noupdate = False\<rparr>,
         \<lparr>imd_id = 13, imd_module = ''base'', imd_name = ''other'',
          imd_model = ''ir.ui.view'', imd_res_id = 5, imd_noupdate = False\<rparr>],
      account_edi_document = None, ir_model = Some [], ir_model_access = Some [],
      ir_ui_view = Some
        [\<lparr>view_id = 1, view_name = ''settings'', view_model = ''res.config.settings'',
          view_inherit_id = None, view_arch_db = ''<form/>''\<rparr>,
         \<lparr>view_id = 3, view_name = ''child_b'', view_model = ''res.config.settings'',
          view_inherit_id = Some 1, view_arch_db = ''<field name=x/>''\<rparr>,
         \<lparr>view_id = 5, view_name = ''other'', view_model = ''res.partner'',
          view_inherit_id = None, view_arch_db = ''<form/>''\<rparr>]\<rparr>"

definition migrated_db :: database where
  \<comment> \<open>the database of \<open>legacy_cr\<close> after the migration\<close>
  "migrated_db =
     \<lparr>ir_cron = Some
        [\<lparr>cron_id = 1, cron_name = ''Receive FatturaPA'', cron_active = False\<rparr>,
         \<lparr>cron_id = 2, cron_name = ''Mail queue'', cron_active = True\<rparr>],
      ir_model_data = Some
        [\<lparr>imd_id = 10, imd_module = ''base'', imd_name = ''settings'',
          imd_model = ''ir.ui.view'', imd_res_id = 1, imd_noupdate = False\<rparr>,
         \<lparr>imd_id = 12, imd_module = ''base'', imd_name = ''partner_4'',
          imd_model = ''res.partner'', imd_res_id = 4, imd_noupdate = False\<rparr>,
         \<lparr>imd_id = 13, imd_module = ''base'', imd_name = ''other'',
          imd_model = ''ir.ui.view'', imd_res_id = 5, imd_noupdate = False\<rparr>,
         \<lparr>imd_id = 20, imd_module = ''l10n_it_edi'', imd_name = ''edi_fatturaPA'',
          imd_model = ''account.edi.format'', imd_res_id = 7, imd_noupdate = True\<rparr>,
         \<lparr>imd_id = 21, imd_module = ''account_edi_ubl'', imd_name = ''edi_ubl'',
          imd_model = ''account.edi.format'', imd_res_id = 8, imd_noupdate = True\<rparr>],
      account_edi_document = Some
        [\<lparr>doc_edi_format_id = Some 8\<rparr>, \<lparr>doc_edi_format_id = None\<rparr>],
      ir_model = Some
        [\<lparr>model_id = 40, model_model = ''project.delete.wizard''\<rparr>,
         \<lparr>model_id = 41, model_model = ''res.partner''\<rparr>],
      ir_model_access = Some [\<lparr>access_id = 31, access_model_id = 41\<rparr>],
      ir_ui_view = Some
        [\<lparr>view_id = 1, view_name = ''settings'', view_model = ''res.config.settings'',
          view_inherit_id = None, view_arch_db = ''<form/>''\<rparr>,
         \<lparr>view_id = 3, view_name = ''child_b'', view_model = ''res.config.settings'',
          view_inherit_id = Some 1, view_arch_db = ''<field name=x/>''\<rparr>,
         \<lparr>view_id = 5, view_name = ''other'', view_model = ''res.partner'',
          view_inherit_id = None, view_arch_db = ''<form/>''\<rparr>]\<rparr>"

section \<open>Properties of the sale order line\<close>

lemma fdiv_truthy: "truthy q \<Longrightarrow> \<exists>v. fdiv s q = Inr v"
  by (cases q; cases s) auto

lemma inverse_line_error: "inverse_line l = Inl e \<Longrightarrow> e = UserError"
  using fdiv_truthy [of "product_uom_qty l" "manual_price_subtotal l"]
  by (auto simp: inverse_line_def split: if_splits sum.splits)

lemma inverse_raises:
  assumes "truthy (product_uom_qty l)" "le_zero (product_uom_qty l)" "truthy (manual_price_subtotal l)"
  shows "\<exists>pre'. inverse_manual_subtotal (pre @ l # post) = Inl (UserError, pre' @ l # post)
           \<and> length pre' = length pre"
proof (induction pre)
  case Nil
  from assms have "inverse_line l = Inl UserError" by (simp add: inverse_line_def)
  then show ?case by simp
next
  case (Cons a pre)
  then obtain pre' where IH: "inverse_manual_subtotal (pre @ l # post) = Inl (UserError, pre' @ l # post)"
     "length pre' = length pre" by blast
  show ?case
  proof (cases "inverse_line a")
    case (Inl e)
    then have "e = UserError" by (rule inverse_line_error)
    with Inl have "inverse_manual_subtotal ((a # pre) @ l # post) = Inl (UserError, (a # pre) @ l # post)"
      by simp
    then show ?thesis by blast
  next
    case (Inr a')
    with IH have "inverse_manual_subtotal ((a # pre) @ l # post) = Inl (UserError, (a' # pre') @ l # post)"
      by simp
    moreover have "length (a' # pre') = length (a # pre)" using IH by simp
    ultimately show ?thesis by blast
  qed
qed

lemma write_lines_raises:
  assumes "truthy (product_uom_qty l)" "le_zero (product_uom_qty l)" "truthy s"
  shows "\<exists>vals'. write_lines (pre @ l # post) s vals = Inl (UserError, vals')"
proof (induction pre arbitrary: vals)
  case Nil
  from assms show ?case by simp
next
  case (Cons a pre)
  show ?case
    using fdiv_truthy [of "product_uom_qty a" s] Cons.IH
    by (auto split: sum.splits)
qed

text \<open>
  C1. The specification has it that in the inverse method, the subtotal on-change handler and the write
  override, a quantity \<open>\<le> 0\<close> while the subtotal is used to derive the unit price raises
  the validation error and mutates no field; in particular a subtotal with quantity \<open>0\<close>
  is rejected.

  What the code does: the three operations are guarded by \<open>if quantity and subtotal\<close>, so the
  error is raised exactly for a non-zero quantity \<open>\<le> 0\<close> (a negative one) together with a
  non-zero subtotal. Then the on-change handler raises with the record as it was; the
  inverse method raises with the offending line and every later line as they were (the
  lines before it in the recordset have been processed); the write override raises
  before it reaches the framework's \<open>write\<close>. With quantity \<open>0\<close> nothing is raised
  and no price is derived.
\<close>

theorem C1_negative_quantity_rejected:
  assumes "truthy q" and "le_zero q" and "truthy s"
  shows "onchange_manual_subtotal (line\<lparr>product_uom_qty := q, manual_price_subtotal := s\<rparr>)
           = Inl (UserError, line\<lparr>product_uom_qty := q, manual_price_subtotal := s\<rparr>)
       \<and> (\<exists>pre'. inverse_manual_subtotal
                    (pre @ line\<lparr>product_uom_qty := q, manual_price_subtotal := s\<rparr> # post)
                  = Inl (UserError,
                         pre' @ line\<lparr>product_uom_qty := q, manual_price_subtotal := s\<rparr> # post)
                \<and> length pre' = length pre)
       \<and> write_override self (vals(Manual_price_subtotal \<mapsto> s, Product_uom_qty \<mapsto> q))
           = Inl (UserError, vals(Manual_price_subtotal \<mapsto> s, Product_uom_qty \<mapsto> q))
       \<and> (vals Product_uom_qty = None \<longrightarrow>
            (\<exists>vals'. write_override (pre @ line\<lparr>product_uom_qty := q\<rparr> # post)
                        (vals(Manual_price_subtotal \<mapsto> s)) = Inl (UserError, vals')))
       \<and> onchange_manual_subtotal (line\<lparr>product_uom_qty := Fin 0\<rparr>)
           = Inr (line\<lparr>product_uom_qty := Fin 0\<rparr>)
       \<and> inverse_manual_subtotal [line\<lparr>product_uom_qty := Fin 0\<rparr>]
           = Inr [line\<lparr>product_uom_qty := Fin 0\<rparr>]
       \<and> (vals Product_uom_qty = None \<longrightarrow>
            write_override [line\<lparr>product_uom_qty := Fin 0\<rparr>] (vals(Manual_price_subtotal \<mapsto> s))
              = Inr (vals(Manual_price_subtotal \<mapsto> s)))"
proof -
  let ?l = "line\<lparr>product_uom_qty := q, manual_price_subtotal := s\<rparr>"
  have a: "onchange_manual_subtotal ?l = Inl (UserError, ?l)"
    using assms by (simp add: onchange_manual_subtotal_def)
  have b: "\<exists>pre'. inverse_manual_subtotal (pre @ ?l # post) = Inl (UserError, pre' @ ?l # post)
                \<and> length pre' = length pre"
    using assms by (intro inverse_raises) simp_all
  have c: "write_override self (vals(Manual_price_subtotal \<mapsto> s, Product_uom_qty \<mapsto> q))
           = Inl (UserError, vals(Manual_price_subtotal \<mapsto> s, Product_uom_qty \<mapsto> q))"
    using assms by (simp add: write_override_def)
  have d: "vals Product_uom_qty = None \<longrightarrow>
            (\<exists>vals'. write_override (pre @ line\<lparr>product_uom_qty := q\<rparr> # post)
                        (vals(Manual_price_subtotal \<mapsto> s)) = Inl (UserError, vals'))"
    using assms
      write_lines_raises [of "line\<lparr>product_uom_qty := q\<rparr>" s pre post "vals(Manual_price_subtotal \<mapsto> s)"]
    by (simp add: write_override_def)
  have e: "onchange_manual_subtotal (line\<lparr>product_uom_qty := Fin 0\<rparr>)
           = Inr (line\<lparr>product_uom_qty := Fin 0\<rparr>)"
    by (simp add: onchange_manual_subtotal_def)
  have f: "inverse_manual_subtotal [line\<lparr>product_uom_qty := Fin 0\<rparr>]
           = Inr [line\<lparr>product_uom_qty := Fin 0\<rparr>]"
    by (simp add: inverse_line_def)
  have g: "vals Product_uom_qty = None \<longrightarrow>
            write_override [line\<lparr>product_uom_qty := Fin 0\<rparr>] (vals(Manual_price_subtotal \<mapsto> s))
              = Inr (vals(Manual_price_subtotal \<mapsto> s))"
    by (simp add: write_override_def)
  from a b c d e f g show ?thesis by blast
qed

text \<open>
  A line with quantity \<open>-2\<close> and subtotal \<open>10\<close>, after a line with quantity \<open>2\<close>: every
  operation raises; the inverse method has by then set the price of the first line.
\<close>

theorem C1_negative_quantity_rejected_witness:
  "truthy (Fin (- 2)) \<and> le_zero (Fin (- 2)) \<and> truthy (Fin 10)
   \<and> onchange_manual_subtotal
       \<lparr>product_uom_qty = Fin (- 2), price_unit = Fin 5, manual_price_subtotal = Fin 10\<rparr>
     = Inl (UserError,
            \<lparr>product_uom_qty = Fin (- 2), price_unit = Fin 5, manual_price_subtotal = Fin 10\<rparr>)
   \<and> (\<exists>pre'. inverse_manual_subtotal
         [\<lparr>product_uom_qty = Fin 2, price_unit = Fin 1, manual_price_subtotal = Fin 8\<rparr>,
          \<lparr>product_uom_qty = Fin (- 2), price_unit = Fin 5, manual_price_subtotal = Fin 10\<rparr>]
       = Inl (UserError,
              pre' @ [\<lparr>product_uom_qty = Fin (- 2), price_unit = Fin 5,
                       manual_price_subtotal = Fin 10\<rparr>])
       \<and> length pre' = 1)
   \<and> write_override [] [Manual_price_subtotal \<mapsto> Fin 10, Product_uom_qty \<mapsto> Fin (- 2)]
     = Inl (UserError, [Manual_price_subtotal \<mapsto> Fin 10, Product_uom_qty \<mapsto> Fin (- 2)])
   \<and> (\<exists>vals'. write_override
         [\<lparr>product_uom_qty = Fin 2, price_unit = Fin 1, manual_price_subtotal = Fin 8\<rparr>,
          \<lparr>product_uom_qty = Fin (- 2), price_unit = Fin 5, manual_price_subtotal = Fin 10\<rparr>]
         [Manual_price_subtotal \<mapsto> Fin 10] = Inl (UserError, vals'))"
proof -
  have h1: "truthy (Fin (- 2))" and h2: "le_zero (Fin (- 2))" and h3: "truthy (Fin 10)"
    by simp_all
  from C1_negative_quantity_rejected [OF h1 h2 h3,
      of "\<lparr>product_uom_qty = Fin (- 2), price_unit = Fin 5, manual_price_subtotal = Fin 10\<rparr>"
         "[\<lparr>product_uom_qty = Fin 2, price_unit = Fin 1, manual_price_subtotal = Fin 8\<rparr>]"
         "[]" "[]" "Map.empty"]
  show ?thesis by simp
qed

theorem C1_counterexample:
  "inverse_manual_subtotal
     [\<lparr>product_uom_qty = Fin 0, price_unit = Fin 5, manual_price_subtotal = Fin 10\<rparr>]
     = Inr [\<lparr>product_uom_qty = Fin 0, price_unit = Fin 5, manual_price_subtotal = Fin 10\<rparr>]
   \<and> onchange_manual_subtotal
       \<lparr>product_uom_qty = Fin 0, price_unit = Fin 5, manual_price_subtotal = Fin 10\<rparr>
     = Inr \<lparr>product_uom_qty = Fin 0, price_unit = Fin 5, manual_price_subtotal = Fin 10\<rparr>
   \<and> write_override
       [\<lparr>product_uom_qty = Fin 0, price_unit = Fin 5, manual_price_subtotal = Fin 0\<rparr>]
       [Manual_price_subtotal \<mapsto> Fin 10]
     = Inr [Manual_price_subtotal \<mapsto> Fin 10]
   \<and> write_override [] [Manual_price_subtotal \<mapsto> Fin 10, Product_uom_qty \<mapsto> Fin 0]
     = Inr [Manual_price_subtotal \<mapsto> Fin 10, Product_uom_qty \<mapsto> Fin 0]"
  by (simp add: inverse_line_def onchange_manual_subtotal_def write_override_def)

lemma round_half_up_int: "round_half_up (of_int k) = k"
proof -
  have "\<lfloor>(of_int k :: rat) + 1 / 2\<rfloor> = k" by linarith
  moreover have "\<lfloor>- (of_int k :: rat) + 1 / 2\<rfloor> = - k" by linarith
  ultimately show ?thesis by (simp add: round_half_up_def)
qed

lemma float_round_int: "float_round digits (Fin (of_int k)) = round64 (of_int k)"
proof -
  have "(of_int k :: rat) * 10 ^ digits = of_int (k * 10 ^ digits)" by simp
  then have "round_half_up (of_int k * 10 ^ digits) = k * 10 ^ digits"
    by (simp only: round_half_up_int)
  then show ?thesis by simp
qed




text \<open>
  C6. The specification has it that every create or update that touches the subtotal with quantity \<open>> 0\<close>
  recomputes the unit price as subtotal divided by quantity, so that subtotal
  \<open>= quantity \<times> unit price\<close> holds afterwards; with quantity \<open>3\<close> and price \<open>10.0\<close> the
  subtotal is \<open>30.0\<close>, and setting the subtotal to \<open>45.0\<close> makes the price \<open>15.0\<close>.

  What the code does: with quantity \<open>> 0\<close> and a non-zero subtotal, the on-change handler, the
  write override (for a quantity given in \<open>vals\<close>, or for a single line) and the create
  override set the unit price to the float quotient subtotal \<open>/\<close> quantity; the two
  examples hold as stated.
\<close>

theorem C6_price_from_subtotal:
  assumes "0 < q" and "s \<noteq> 0"
  shows "onchange_manual_subtotal
           (line\<lparr>product_uom_qty := Fin q, manual_price_subtotal := Fin s\<rparr>)
         = Inr (line\<lparr>product_uom_qty := Fin q, manual_price_subtotal := Fin s,
                     price_unit := round64 (s / q)\<rparr>)
       \<and> fdiv (Fin s) (Fin q) = Inr (round64 (s / q))
       \<and> write_override self (vals(Manual_price_subtotal \<mapsto> Fin s, Product_uom_qty \<mapsto> Fin q))
         = Inr (vals(Manual_price_subtotal \<mapsto> Fin s, Product_uom_qty \<mapsto> Fin q,
                     Price_unit \<mapsto> round64 (s / q)))
       \<and> (vals Product_uom_qty = None \<longrightarrow>
            write_override [line\<lparr>product_uom_qty := Fin q\<rparr>] (vals(Manual_price_subtotal \<mapsto> Fin s))
            = Inr (vals(Manual_price_subtotal \<mapsto> Fin s, Price_unit \<mapsto> round64 (s / q))))
       \<and> create [vals(Manual_price_subtotal \<mapsto> Fin s, Product_uom_qty \<mapsto> Fin q)]
         = Inr [vals(Manual_price_subtotal \<mapsto> Fin s, Product_uom_qty \<mapsto> Fin q,
                     Price_unit \<mapsto> round64 (s / q))]
       \<and> compute_manual_subtotal digits
           [\<lparr>product_uom_qty = Fin 3, price_unit = Fin 10, manual_price_subtotal = Fin 0\<rparr>]
         = [\<lparr>product_uom_qty = Fin 3, price_unit = Fin 10, manual_price_subtotal = Fin 30\<rparr>]
       \<and> write_override
           [\<lparr>product_uom_qty = Fin 3, price_unit = Fin 10, manual_price_subtotal = Fin 30\<rparr>]
           [Manual_price_subtotal \<mapsto> Fin 45]
         = Inr [Manual_price_subtotal \<mapsto> Fin 45, Price_unit \<mapsto> Fin 15]
       \<and> onchange_manual_subtotal
           \<lparr>product_uom_qty = Fin 3, price_unit = Fin 10, manual_price_subtotal = Fin 45\<rparr>
         = Inr \<lparr>product_uom_qty = Fin 3, price_unit = Fin 15, manual_price_subtotal = Fin 45\<rparr>"
proof -
  have r30: "round64 30 = Fin 30" by code_simp
  have r15: "round64 15 = Fin 15" by code_simp
  have a: "onchange_manual_subtotal
           (line\<lparr>product_uom_qty := Fin q, manual_price_subtotal := Fin s\<rparr>)
         = Inr (line\<lparr>product_uom_qty := Fin q, manual_price_subtotal := Fin s,
                     price_unit := round64 (s / q)\<rparr>)"
    using assms by (simp add: onchange_manual_subtotal_def)
  have b: "fdiv (Fin s) (Fin q) = Inr (round64 (s / q))"
    using assms by simp
  have c: "write_override self (vals(Manual_price_subtotal \<mapsto> Fin s, Product_uom_qty \<mapsto> Fin q))
         = Inr (vals(Manual_price_subtotal \<mapsto> Fin s, Product_uom_qty \<mapsto> Fin q,
                     Price_unit \<mapsto> round64 (s / q)))"
    using assms by (simp add: write_override_def)
  have d: "vals Product_uom_qty = None \<longrightarrow>
            write_override [line\<lparr>product_uom_qty := Fin q\<rparr>] (vals(Manual_price_subtotal \<mapsto> Fin s))
            = Inr (vals(Manual_price_subtotal \<mapsto> Fin s, Price_unit \<mapsto> round64 (s / q)))"
    using assms by (simp add: write_override_def)
  have e: "create [vals(Manual_price_subtotal \<mapsto> Fin s, Product_uom_qty \<mapsto> Fin q)]
         = Inr [vals(Manual_price_subtotal \<mapsto> Fin s, Product_uom_qty \<mapsto> Fin q,
                     Price_unit \<mapsto> round64 (s / q))]"
    using assms by (simp add: create_vals_def get_truthy_def)
  have "float_round digits (Fin 30) = Fin 30"
    using float_round_int [of digits 30] by (simp add: r30)
  then have f: "compute_manual_subtotal digits
           [\<lparr>product_uom_qty = Fin 3, price_unit = Fin 10, manual_price_subtotal = Fin 0\<rparr>]
         = [\<lparr>product_uom_qty = Fin 3, price_unit = Fin 10, manual_price_subtotal = Fin 30\<rparr>]"
    by (simp add: compute_manual_subtotal_def r30)
  have g: "write_override
           [\<lparr>product_uom_qty = Fin 3, price_unit = Fin 10, manual_price_subtotal = Fin 30\<rparr>]
           [Manual_price_subtotal \<mapsto> Fin 45]
         = Inr [Manual_price_subtotal \<mapsto> Fin 45, Price_unit \<mapsto> Fin 15]"
    by (simp add: write_override_def r15)
  have h: "onchange_manual_subtotal
           \<lparr>product_uom_qty = Fin 3, price_unit = Fin 10, manual_price_subtotal = Fin 45\<rparr>
         = Inr \<lparr>product_uom_qty = Fin 3, price_unit = Fin 15, manual_price_subtotal = Fin 45\<rparr>"
    by (simp add: onchange_manual_subtotal_def r15)
  from a b c d e f g h show ?thesis by blast
qed

theorem C6_price_from_subtotal_witness:
  "(0::rat) < 4 \<and> (6::rat) \<noteq> 0
   \<and> onchange_manual_subtotal
       \<lparr>product_uom_qty = Fin 4, price_unit = Fin 10, manual_price_subtotal = Fin 6\<rparr>
     = Inr \<lparr>product_uom_qty = Fin 4, price_unit = Fin (3 / 2), manual_price_subtotal = Fin 6\<rparr>
   \<and> write_override
       [\<lparr>product_uom_qty = Fin 4, price_unit = Fin 10, manual_price_subtotal = Fin 40\<rparr>]
       [Manual_price_subtotal \<mapsto> Fin 6]
     = Inr [Manual_price_subtotal \<mapsto> Fin 6, Price_unit \<mapsto> Fin (3 / 2)]
   \<and> create [ [Manual_price_subtotal \<mapsto> Fin 6, Product_uom_qty \<mapsto> Fin 4] ]
     = Inr [ [Manual_price_subtotal \<mapsto> Fin 6, Product_uom_qty \<mapsto> Fin 4, Price_unit \<mapsto> Fin (3 / 2)] ]"
proof -
  have h1: "(0::rat) < 4" and h2: "(6::rat) \<noteq> 0" by simp_all
  have r: "round64 (3 / 2) = Fin (3 / 2)" by code_simp
  from C6_price_from_subtotal [OF h1 h2,
      of "\<lparr>product_uom_qty = Fin 4, price_unit = Fin 10, manual_price_subtotal = Fin 40\<rparr>"
         "[]" "Map.empty"]
  show ?thesis by (simp add: r)
qed

text \<open>
  Setting the subtotal of a line with quantity \<open>3\<close> and price \<open>10\<close> to \<open>0\<close> derives no
  price: the dictionary handed on has no \<open>price_unit\<close>, and the handler leaves the price
  at \<open>10\<close>. With quantity \<open>49\<close> and subtotal \<open>1\<close> the derived price times the quantity
  is \<open>0.9999999999999999\<close>, not the subtotal.
\<close>

theorem C6_counterexample:
  "write_override
     [\<lparr>product_uom_qty = Fin 3, price_unit = Fin 10, manual_price_subtotal = Fin 30\<rparr>]
     [Manual_price_subtotal \<mapsto> Fin 0] = Inr [Manual_price_subtotal \<mapsto> Fin 0]
   \<and> onchange_manual_subtotal
       \<lparr>product_uom_qty = Fin 3, price_unit = Fin 10, manual_price_subtotal = Fin 0\<rparr>
     = Inr \<lparr>product_uom_qty = Fin 3, price_unit = Fin 10, manual_price_subtotal = Fin 0\<rparr>
   \<and> onchange_manual_subtotal
       \<lparr>product_uom_qty = Fin 49, price_unit = Fin 0, manual_price_subtotal = Fin 1\<rparr>
     = Inr \<lparr>product_uom_qty = Fin 49, price_unit = Fin (5882252574524729 / 288230376151711744),
            manual_price_subtotal = Fin 1\<rparr>
   \<and> fmul (Fin 49) (Fin (5882252574524729 / 288230376151711744))
     = Fin (9007199254740991 / 9007199254740992)"
proof -
  have a: "write_override
     [\<lparr>product_uom_qty = Fin 3, price_unit = Fin 10, manual_price_subtotal = Fin 30\<rparr>]
     [Manual_price_subtotal \<mapsto> Fin 0] = Inr [Manual_price_subtotal \<mapsto> Fin 0]"
    by (simp add: write_override_def)
  have b: "onchange_manual_subtotal
       \<lparr>product_uom_qty = Fin 3, price_unit = Fin 10, manual_price_subtotal = Fin 0\<rparr>
     = Inr \<lparr>product_uom_qty = Fin 3, price_unit = Fin 10, manual_price_subtotal = Fin 0\<rparr>"
    by (simp add: onchange_manual_subtotal_def)
  have c: "onchange_manual_subtotal
       \<lparr>product_uom_qty = Fin 49, price_unit = Fin 0, manual_price_subtotal = Fin 1\<rparr>
     = Inr \<lparr>product_uom_qty = Fin 49, price_unit = Fin (5882252574524729 / 288230376151711744),
            manual_price_subtotal = Fin 1\<rparr>"
    by code_simp
  have d: "fmul (Fin 49) (Fin (5882252574524729 / 288230376151711744))
     = Fin (9007199254740991 / 9007199254740992)"
    by code_simp
  from a b c d show ?thesis by blast
qed




section \<open>Properties of the migration\<close>

subsection \<open>Removing views\<close>

lemma without_views_empty: "without_views {} d = d"
  by (cases d; cases "ir_ui_view d"; cases "ir_model_data d") (simp_all add: without_views_def)

lemma without_views_twice: "without_views A (without_views B d) = without_views (A \<union> B) d"
proof -
  have 1: "filter (\<lambda>r. view_id r \<notin> A) (filter (\<lambda>r. view_id r \<notin> B) xs)
           = filter (\<lambda>r. view_id r \<notin> A \<union> B) xs" for xs
    by (induction xs) auto
  have 2: "filter (\<lambda>r. \<not> (imd_model r = ''ir.ui.view'' \<and> imd_res_id r \<in> A))
             (filter (\<lambda>r. \<not> (imd_model r = ''ir.ui.view'' \<and> imd_res_id r \<in> B)) ys)
           = filter (\<lambda>r. \<not> (imd_model r = ''ir.ui.view'' \<and> imd_res_id r \<in> A \<union> B)) ys" for ys
    by (induction ys) auto
  show ?thesis
    unfolding without_views_def
    by (cases d; cases "ir_ui_view d"; cases "ir_model_data d") (simp_all only: 1 2 database.simps option.map option.simps)
qed

lemma views_of_without: "views_of (without_views S d) = filter (\<lambda>r. view_id r \<notin> S) (views_of d)"
  by (cases "ir_ui_view d") (simp_all add: without_views_def views_of_def)

lemma view_tables_without: "view_tables_exist (without_views S d) = view_tables_exist d"
  by (simp add: without_views_def view_tables_exist_def)

subsection \<open>The inheritance relation\<close>

lemma inherits_filter: "inherits (filter P views) \<subseteq> inherits views"
  by (auto simp: inherits_def)

lemma subtree_self: "v \<in> subtree views v"
  by (simp add: subtree_def)

lemma subtree_filter: "subtree (filter P views) v \<subseteq> subtree views v"
  unfolding subtree_def using rtrancl_mono [OF inherits_filter [of P views] ] by auto

lemma closed_empty: "closed views {}"
  by (simp add: closed_def)

lemma closed_Un: "closed views A \<Longrightarrow> closed views B \<Longrightarrow> closed views (A \<union> B)"
  by (auto simp: closed_def)

lemma closed_subtree: "closed views (subtree views v)"
  by (auto simp: closed_def subtree_def intro: converse_rtrancl_into_rtrancl)

lemma closed_UN: "(\<And>x. x \<in> A \<Longrightarrow> closed views (f x)) \<Longrightarrow> closed views (\<Union>x\<in>A. f x)"
  by (auto simp: closed_def) blast

lemma closed_subtree_in: "closed views S \<Longrightarrow> v \<in> S \<Longrightarrow> subtree views v \<subseteq> S"
proof
  fix x assume c: "closed views S" and v: "v \<in> S" and "x \<in> subtree views v"
  then have "(x, v) \<in> (inherits views)\<^sup>*" by (simp add: subtree_def)
  then show "x \<in> S" using v
    by (induction rule: converse_rtrancl_induct) (use c in \<open>auto simp: closed_def\<close>)
qed

lemma subtree_survives:
  assumes c: "closed views S"
  shows "subtree views v \<subseteq> subtree (filter (\<lambda>r. view_id r \<notin> S) views) v \<union> S"
proof
  fix x assume "x \<in> subtree views v"
  then have "(x, v) \<in> (inherits views)\<^sup>*" by (simp add: subtree_def)
  then show "x \<in> subtree (filter (\<lambda>r. view_id r \<notin> S) views) v \<union> S"
  proof (induction rule: converse_rtrancl_induct)
    case base
    show ?case by (simp add: subtree_self)
  next
    case (step x y)
    show ?case
    proof (cases "x \<in> S")
      case True
      then show ?thesis by simp
    next
      case False
      with c step.hyps(1) have "y \<notin> S" by (auto simp: closed_def)
      with step.IH have y: "(y, v) \<in> (inherits (filter (\<lambda>r. view_id r \<notin> S) views))\<^sup>*"
        by (simp add: subtree_def)
      from step.hyps(1) False have "(x, y) \<in> inherits (filter (\<lambda>r. view_id r \<notin> S) views)"
        by (auto simp: inherits_def)
      with y show ?thesis by (auto simp: subtree_def intro: converse_rtrancl_into_rtrancl)
    qed
  qed
qed

lemma subtree_after_removal:
  "closed views S \<Longrightarrow>
   subtree (filter (\<lambda>r. view_id r \<notin> S) views) v \<union> S = subtree views v \<union> S"
  using subtree_survives [of views S v] subtree_filter [of "\<lambda>r. view_id r \<notin> S" views v]
  by blast

lemma subtree_unfold:
  "subtree views v =
   insert v (\<Union>c \<in> set (map view_id (filter (\<lambda>r. view_inherit_id r = Some v) views)). subtree views c)"
proof -
  have "(x, v) \<in> (inherits views)\<^sup>* \<longleftrightarrow> x = v \<or> (\<exists>c. (c, v) \<in> inherits views \<and> (x, c) \<in> (inherits views)\<^sup>*)" for x
    by (metis rtrancl.simps)
  moreover have "(c, v) \<in> inherits views \<longleftrightarrow>
      c \<in> set (map view_id (filter (\<lambda>r. view_inherit_id r = Some v) views))" for c
    by (auto simp: inherits_def)
  ultimately show ?thesis by (auto simp: subtree_def)
qed


subsection \<open>Effect of the statements\<close>

lemma select_child_views_Inr:
  assumes "select_child_views cr v = Inr (rows, cr1)"
  shows "db cr1 = db cr" and "executed cr1 = executed cr @ [Select_child_views v]"
    and "map fst rows = map view_id (filter (\<lambda>r. view_inherit_id r = Some v) (views_of (db cr)))"
    and "ir_ui_view (db cr) \<noteq> None"
  using assms
  by (auto simp: select_child_views_def execute_def views_of_def comp_def split: option.splits)

lemma delete_view_Inr:
  assumes "delete_ir_model_data_view cr2 v = Inr cr3" and "delete_ir_ui_view cr3 v = Inr (deleted, cr4)"
  shows "db cr4 = without_views {v} (db cr2)"
    and "executed cr4 = executed cr2 @ [Delete_ir_model_data_view v, Delete_ir_ui_view v]"
    and "deleted \<noteq> [] \<longleftrightarrow> v \<in> view_id ` set (views_of (db cr2))"
    and "length (views_of (db cr4)) + length deleted = length (views_of (db cr2))"
proof -
  from assms obtain D V where D: "ir_model_data (db cr2) = Some D" and V: "ir_ui_view (db cr2) = Some V"
    by (auto simp: delete_ir_model_data_view_def delete_ir_ui_view_def execute_def split: option.splits)
  have f: "filter (\<lambda>r. \<not> view_data v r) D
           = filter (\<lambda>r. \<not> (imd_model r = ''ir.ui.view'' \<and> imd_res_id r \<in> {v})) D"
    by (rule filter_cong) (auto simp: view_data_def)
  from assms D V show "db cr4 = without_views {v} (db cr2)"
    by (cases "db cr2")
       (auto simp: delete_ir_model_data_view_def delete_ir_ui_view_def execute_def without_views_def f)
  from assms D V show "executed cr4 = executed cr2 @ [Delete_ir_model_data_view v, Delete_ir_ui_view v]"
    by (auto simp: delete_ir_model_data_view_def delete_ir_ui_view_def execute_def)
  from assms D V have del: "deleted = map (\<lambda>r. (view_id r, view_name r)) (filter (\<lambda>r. view_id r = v) V)"
    and V4: "views_of (db cr4) = filter (\<lambda>r. view_id r \<noteq> v) V"
    by (auto simp: delete_ir_model_data_view_def delete_ir_ui_view_def execute_def views_of_def)
  from del V show "deleted \<noteq> [] \<longleftrightarrow> v \<in> view_id ` set (views_of (db cr2))"
    by (auto simp: views_of_def filter_empty_conv)
  have "length (filter (\<lambda>r. view_id r \<noteq> v) V) + length (filter (\<lambda>r. view_id r = v) V) = length V"
    using sum_length_filter_compl [of "\<lambda>r. view_id r = v" V] by (simp add: add.commute)
  with del V4 V show "length (views_of (db cr4)) + length deleted = length (views_of (db cr2))"
    by (simp add: views_of_def)
qed

subsection \<open>Effect of the iteration and of the cascade\<close>

lemma for_views_effect:
  assumes f: "\<And>cr v n cr'. f cr v = Inr (n, cr') \<Longrightarrow>
                db cr' = without_views (subtree (views_of (db cr)) v) (db cr)"
  shows "for_views f vs n cr = Inr (n', cr') \<Longrightarrow> db cr = without_views S d0 \<Longrightarrow>
         closed (views_of d0) S \<Longrightarrow>
         db cr' = without_views (S \<union> (\<Union>v \<in> set vs. subtree (views_of d0) v)) d0"
proof (induction vs arbitrary: n cr S)
  case Nil
  then show ?case by simp
next
  case (Cons v vs)
  from Cons.prems(1) obtain k cr1 where k: "f cr v = Inr (k, cr1)"
    and rest: "for_views f vs (n + k) cr1 = Inr (n', cr')"
    by (auto split: sum.splits)
  have "db cr1 = without_views (subtree (views_of (db cr)) v) (db cr)" by (rule f [OF k])
  also have "\<dots> = without_views (subtree (filter (\<lambda>r. view_id r \<notin> S) (views_of d0)) v \<union> S) d0"
    by (simp add: Cons.prems(2) views_of_without without_views_twice)
  also have "\<dots> = without_views (subtree (views_of d0) v \<union> S) d0"
    by (simp add: subtree_after_removal [OF Cons.prems(3)])
  finally have 1: "db cr1 = without_views (subtree (views_of d0) v \<union> S) d0" .
  have 2: "closed (views_of d0) (subtree (views_of d0) v \<union> S)"
    by (intro closed_Un closed_subtree Cons.prems(3))
  from Cons.IH [OF rest 1 2] show ?case
    by (simp add: Un_assoc Un_commute Un_left_commute)
qed

lemma delete_view_cascade_effect:
  "delete_view_cascade depth cr v = Inr (n, cr') \<Longrightarrow>
   db cr' = without_views (subtree (views_of (db cr)) v) (db cr)"
proof (induction depth arbitrary: cr v n cr')
  case 0
  then show ?case by simp
next
  case (Suc depth)
  from Suc.prems obtain child_views cr1 k cr2 cr3 deleted where
    sel: "select_child_views cr v = Inr (child_views, cr1)"
    and loop: "for_views (delete_view_cascade depth) (map fst child_views) 0 cr1 = Inr (k, cr2)"
    and d1: "delete_ir_model_data_view cr2 v = Inr cr3"
    and d2: "delete_ir_ui_view cr3 v = Inr (deleted, cr')"
    by (auto split: sum.splits)
  let ?V = "views_of (db cr)"
  let ?cs = "map view_id (filter (\<lambda>r. view_inherit_id r = Some v) ?V)"
  from select_child_views_Inr [OF sel] have cr1: "db cr1 = db cr" and cs: "map fst child_views = ?cs"
    by simp_all
  have "db cr1 = without_views {} (db cr)" by (simp add: cr1 without_views_empty)
  from for_views_effect [OF Suc.IH loop this closed_empty]
  have 2: "db cr2 = without_views (\<Union>c \<in> set ?cs. subtree ?V c) (db cr)"
    by (simp add: cs)
  from delete_view_Inr(1) [OF d1 d2] 2
  have "db cr' = without_views (insert v (\<Union>c \<in> set ?cs. subtree ?V c)) (db cr)"
    by (simp add: without_views_twice)
  then show ?case by (simp add: subtree_unfold [of ?V v])
qed


subsection \<open>Counting the deleted rows\<close>

lemma filter_key_le1: "distinct (map f xs) \<Longrightarrow> length (filter (\<lambda>r. f r = v) xs) \<le> 1"
proof (induction xs)
  case Nil
  then show ?case by simp
next
  case (Cons a xs)
  show ?case
  proof (cases "f a = v")
    case True
    from Cons.prems have "f a \<notin> f ` set xs" by simp
    then have "\<forall>x \<in> set xs. f x \<noteq> f a" by (metis imageI)
    with True have "filter (\<lambda>r. f r = v) xs = []"
      by (simp add: filter_empty_conv)
    with True show ?thesis by simp
  next
    case False
    with Cons show ?thesis by simp
  qed
qed

lemma distinct_views_without:
  "distinct (map view_id (views_of d)) \<Longrightarrow> distinct (map view_id (views_of (without_views S d)))"
  by (simp add: views_of_without distinct_map_filter)

lemma for_views_count:
  assumes eff: "\<And>cr v n cr'. f cr v = Inr (n, cr') \<Longrightarrow>
                  db cr' = without_views (subtree (views_of (db cr)) v) (db cr)"
    and cnt: "\<And>cr v n cr'. f cr v = Inr (n, cr') \<Longrightarrow> distinct (map view_id (views_of (db cr))) \<Longrightarrow>
                  n + length (views_of (db cr')) = length (views_of (db cr))"
  shows "for_views f vs n cr = Inr (n', cr') \<Longrightarrow> distinct (map view_id (views_of (db cr))) \<Longrightarrow>
         n' + length (views_of (db cr')) = n + length (views_of (db cr))"
proof (induction vs arbitrary: n cr)
  case Nil
  then show ?case by simp
next
  case (Cons v vs)
  from Cons.prems(1) obtain k cr1 where k: "f cr v = Inr (k, cr1)"
    and rest: "for_views f vs (n + k) cr1 = Inr (n', cr')"
    by (auto split: sum.splits)
  from eff [OF k] Cons.prems(2) have "distinct (map view_id (views_of (db cr1)))"
    by (simp add: distinct_views_without)
  from Cons.IH [OF rest this] cnt [OF k Cons.prems(2)] show ?case by simp
qed

lemma delete_view_cascade_count:
  "delete_view_cascade depth cr v = Inr (n, cr') \<Longrightarrow> distinct (map view_id (views_of (db cr))) \<Longrightarrow>
   n + length (views_of (db cr')) = length (views_of (db cr))"
proof (induction depth arbitrary: cr v n cr')
  case 0
  then show ?case by simp
next
  case (Suc depth)
  from Suc.prems(1) obtain child_views cr1 k cr2 cr3 deleted where
    sel: "select_child_views cr v = Inr (child_views, cr1)"
    and loop: "for_views (delete_view_cascade depth) (map fst child_views) 0 cr1 = Inr (k, cr2)"
    and d1: "delete_ir_model_data_view cr2 v = Inr cr3"
    and d2: "delete_ir_ui_view cr3 v = Inr (deleted, cr')"
    and n: "n = (if deleted \<noteq> [] then k + 1 else k)"
    by (auto split: sum.splits)
  from select_child_views_Inr(1) [OF sel] have cr1: "db cr1 = db cr" .
  with Suc.prems(2) have dist1: "distinct (map view_id (views_of (db cr1)))" by simp
  from for_views_count [OF delete_view_cascade_effect Suc.IH loop dist1]
  have k: "k + length (views_of (db cr2)) = length (views_of (db cr))" by (simp add: cr1)
  have "db cr1 = without_views {} (db cr1)" by (simp add: without_views_empty)
  from for_views_effect [OF delete_view_cascade_effect loop this closed_empty] dist1
  have dist2: "distinct (map view_id (views_of (db cr2)))"
    by (simp add: distinct_views_without)
  from d1 d2 have del: "deleted = map (\<lambda>r. (view_id r, view_name r))
                                   (filter (\<lambda>r. view_id r = v) (views_of (db cr2)))"
    by (auto simp: delete_ir_model_data_view_def delete_ir_ui_view_def execute_def views_of_def
             split: option.splits)
  have "length deleted \<le> 1"
    unfolding del length_map by (rule filter_key_le1 [OF dist2])
  then have "(if deleted \<noteq> [] then k + 1 else k) = k + length deleted"
    by (cases deleted) auto
  with n k delete_view_Inr(4) [OF d1 d2] show ?case by simp
qed


subsection \<open>The log of executed statements only grows\<close>

lemma for_views_executed:
  assumes f: "\<And>cr v n cr'. f cr v = Inr (n, cr') \<Longrightarrow> \<exists>tr. executed cr' = executed cr @ tr"
  shows "for_views f vs n cr = Inr (n', cr') \<Longrightarrow> \<exists>tr. executed cr' = executed cr @ tr"
proof (induction vs arbitrary: n cr)
  case Nil
  then show ?case by simp
next
  case (Cons v vs)
  from Cons.prems obtain k cr1 where k: "f cr v = Inr (k, cr1)"
    and rest: "for_views f vs (n + k) cr1 = Inr (n', cr')"
    by (auto split: sum.splits)
  from f [OF k] Cons.IH [OF rest] show ?case by auto
qed

lemma delete_view_cascade_executed:
  "delete_view_cascade depth cr v = Inr (n, cr') \<Longrightarrow>
   \<exists>mid. executed cr' = executed cr @ Select_child_views v # mid
                          @ [Delete_ir_model_data_view v, Delete_ir_ui_view v]"
proof (induction depth arbitrary: cr v n cr')
  case 0
  then show ?case by simp
next
  case (Suc depth)
  from Suc.prems(1) obtain child_views cr1 k cr2 cr3 deleted where
    sel: "select_child_views cr v = Inr (child_views, cr1)"
    and loop: "for_views (delete_view_cascade depth) (map fst child_views) 0 cr1 = Inr (k, cr2)"
    and d1: "delete_ir_model_data_view cr2 v = Inr cr3"
    and d2: "delete_ir_ui_view cr3 v = Inr (deleted, cr')"
    by (auto split: sum.splits)
  have "\<exists>tr. executed cr2 = executed cr1 @ tr"
  proof (rule for_views_executed [of "delete_view_cascade depth", OF _ loop])
    fix cr0 w m cr''
    assume "delete_view_cascade depth cr0 w = Inr (m, cr'')"
    from Suc.IH [OF this] show "\<exists>tr. executed cr'' = executed cr0 @ tr" by auto
  qed
  then obtain mid where "executed cr2 = executed cr1 @ mid"
    by blast
  with select_child_views_Inr(2) [OF sel] delete_view_Inr(2) [OF d1 d2] show ?case by simp
qed

subsection \<open>More stack never hurts\<close>

lemma for_views_mono:
  assumes "\<And>cr v x. f cr v = Inr x \<Longrightarrow> g cr v = Inr x"
  shows "for_views f vs n cr = Inr y \<Longrightarrow> for_views g vs n cr = Inr y"
proof (induction vs arbitrary: n cr)
  case Nil
  then show ?case by simp
next
  case (Cons v vs)
  from Cons.prems obtain k cr1 where k: "f cr v = Inr (k, cr1)"
    and rest: "for_views f vs (n + k) cr1 = Inr y"
    by (auto split: sum.splits)
  from assms [OF k] Cons.IH [OF rest] show ?case by simp
qed

lemma delete_view_cascade_Suc:
  "delete_view_cascade depth cr v = Inr x \<Longrightarrow> delete_view_cascade (Suc depth) cr v = Inr x"
proof (induction depth arbitrary: cr v x)
  case 0
  then show ?case by simp
next
  case (Suc depth)
  from Suc.prems obtain child_views cr1 k cr2 cr3 deleted cr4 where
    sel: "select_child_views cr v = Inr (child_views, cr1)"
    and loop: "for_views (delete_view_cascade depth) (map fst child_views) 0 cr1 = Inr (k, cr2)"
    and d1: "delete_ir_model_data_view cr2 v = Inr cr3"
    and d2: "delete_ir_ui_view cr3 v = Inr (deleted, cr4)"
    and x: "x = (if deleted \<noteq> [] then k + 1 else k, cr4)"
    by (auto split: sum.splits)
  from for_views_mono [of "delete_view_cascade depth" "delete_view_cascade (Suc depth)", OF Suc.IH loop]
  have "for_views (delete_view_cascade (Suc depth)) (map fst child_views) 0 cr1 = Inr (k, cr2)" .
  with sel d1 d2 x show ?case
    by (simp del: delete_view_cascade.simps add: delete_view_cascade.simps(2) [of "Suc depth"])
qed

lemma delete_view_cascade_mono:
  "depth \<le> depth' \<Longrightarrow> delete_view_cascade depth cr v = Inr x \<Longrightarrow>
   delete_view_cascade depth' cr v = Inr x"
proof (induction depth' rule: dec_induct)
  case base
  then show ?case .
next
  case (step n)
  then show ?case by (intro delete_view_cascade_Suc)
qed

subsection \<open>Termination on acyclic inheritance\<close>

lemma finite_inherits: "finite (inherits views)"
proof -
  have "inherits views \<subseteq> (\<lambda>r. (view_id r, the (view_inherit_id r))) ` set views"
    by (force simp: inherits_def)
  then show ?thesis by (rule finite_subset) simp
qed

lemma for_views_terminates:
  assumes P: "\<And>c cr. c \<in> set cs \<Longrightarrow> view_tables_exist (db cr) \<Longrightarrow> \<exists>S. db cr = without_views S d0 \<Longrightarrow>
                 \<exists>depth n cr'. delete_view_cascade depth cr c = Inr (n, cr')"
  shows "view_tables_exist (db cr) \<Longrightarrow> \<exists>S. db cr = without_views S d0 \<Longrightarrow>
         \<exists>depth n' cr'. for_views (delete_view_cascade depth) cs n cr = Inr (n', cr')
             \<and> view_tables_exist (db cr') \<and> (\<exists>S. db cr' = without_views S d0)"
  using P
proof (induction cs arbitrary: n cr)
  case Nil
  then show ?case by simp
next
  case (Cons c cs)
  have "c \<in> set (c # cs)" by simp
  from Cons.prems(3) [OF this Cons.prems(1,2)] obtain d1 k cr1 where
    1: "delete_view_cascade d1 cr c = Inr (k, cr1)" by auto
  from delete_view_cascade_effect [OF 1] Cons.prems(1,2)
  have ok1: "view_tables_exist (db cr1)" and ok2: "\<exists>S. db cr1 = without_views S d0"
    by (auto simp: view_tables_without without_views_twice)
  have "\<exists>depth n' cr'. for_views (delete_view_cascade depth) cs (n + k) cr1 = Inr (n', cr')
             \<and> view_tables_exist (db cr') \<and> (\<exists>S. db cr' = without_views S d0)"
    by (rule Cons.IH [OF ok1 ok2]) (use Cons.prems(3) in auto)
  then obtain d2 n' cr' where
    2: "for_views (delete_view_cascade d2) cs (n + k) cr1 = Inr (n', cr')"
    and ok': "view_tables_exist (db cr')" "\<exists>S. db cr' = without_views S d0" by blast
  let ?d = "max d1 d2"
  have a: "delete_view_cascade ?d cr c = Inr (k, cr1)"
    by (rule delete_view_cascade_mono [OF _ 1]) simp
  have b: "for_views (delete_view_cascade ?d) cs (n + k) cr1 = Inr (n', cr')"
    by (rule for_views_mono [OF _ 2]) (auto intro: delete_view_cascade_mono [of d2 ?d])
  from a b have "for_views (delete_view_cascade ?d) (c # cs) n cr = Inr (n', cr')" by simp
  with ok' show ?case by blast
qed

lemma delete_view_cascade_terminates:
  assumes wf: "wf (inherits (views_of d0))"
  shows "view_tables_exist (db cr) \<Longrightarrow> \<exists>S. db cr = without_views S d0 \<Longrightarrow>
         \<exists>depth n cr'. delete_view_cascade depth cr v = Inr (n, cr')"
  using wf
proof (induction v arbitrary: cr rule: wf_induct_rule)
  case (less v)
  from less.prems(1) obtain V D where V: "ir_ui_view (db cr) = Some V" and D: "ir_model_data (db cr) = Some D"
    by (auto simp: view_tables_exist_def)
  define cs where "cs = map view_id (filter (\<lambda>r. view_inherit_id r = Some v) V)"
  define cr1 where "cr1 = execute (Select_child_views v) (db cr) cr"
  have sel: "select_child_views cr v
             = Inr (map (\<lambda>r. (view_id r, view_name r)) (filter (\<lambda>r. view_inherit_id r = Some v) V), cr1)"
    by (simp add: select_child_views_def V cr1_def)
  have fst: "map fst (map (\<lambda>r. (view_id r, view_name r)) (filter (\<lambda>r. view_inherit_id r = Some v) V)) = cs"
    by (simp add: cs_def comp_def)
  have db1: "db cr1 = db cr" by (simp add: cr1_def execute_def)
  from less.prems(2) obtain S where S: "db cr = without_views S d0" by blast
  have sub: "(c, v) \<in> inherits (views_of d0)" if "c \<in> set cs" for c
  proof -
    from that have "(c, v) \<in> inherits V" by (auto simp: cs_def inherits_def)
    moreover have "V = filter (\<lambda>r. view_id r \<notin> S) (views_of d0)"
      using V S views_of_without [of S d0] by (simp add: views_of_def)
    ultimately show ?thesis using inherits_filter by blast
  qed
  have P: "\<exists>depth n cr'. delete_view_cascade depth cr0 c = Inr (n, cr')"
    if "c \<in> set cs" "view_tables_exist (db cr0)" "\<exists>S. db cr0 = without_views S d0" for c cr0
    using less.IH [OF sub [OF that(1)] that(2,3)] .
  have ok1: "view_tables_exist (db cr1)" using less.prems(1) by (simp add: db1)
  have ok1': "\<exists>S. db cr1 = without_views S d0" using less.prems(2) by (simp add: db1)
  have "\<exists>depth n' cr'. for_views (delete_view_cascade depth) cs 0 cr1 = Inr (n', cr')
             \<and> view_tables_exist (db cr') \<and> (\<exists>S. db cr' = without_views S d0)"
    using for_views_terminates [of cs d0 cr1 0, OF P ok1 ok1'] .
  then obtain depth k cr2 where loop: "for_views (delete_view_cascade depth) cs 0 cr1 = Inr (k, cr2)"
    and ok2: "view_tables_exist (db cr2)" by blast
  from ok2 obtain V2 D2 where V2: "ir_ui_view (db cr2) = Some V2" and D2: "ir_model_data (db cr2) = Some D2"
    by (auto simp: view_tables_exist_def)
  from sel fst loop V2 D2 have "\<exists>n cr'. delete_view_cascade (Suc depth) cr v = Inr (n, cr')"
    by (simp add: delete_ir_model_data_view_def delete_ir_ui_view_def execute_def)
  then show ?case by blast
qed

subsection \<open>With the tables present, only the stack can fail\<close>

lemma for_views_error:
  assumes err: "\<And>cr v e. view_tables_exist (db cr) \<Longrightarrow> f cr v = Inl e \<Longrightarrow> e = RecursionError"
    and ok: "\<And>cr v n cr'. f cr v = Inr (n, cr') \<Longrightarrow> view_tables_exist (db cr) \<Longrightarrow>
               view_tables_exist (db cr')"
  shows "for_views f vs n cr = Inl e \<Longrightarrow> view_tables_exist (db cr) \<Longrightarrow> e = RecursionError"
proof (induction vs arbitrary: n cr)
  case Nil
  then show ?case by simp
next
  case (Cons v vs)
  show ?case
  proof (cases "f cr v")
    case (Inl e')
    with Cons.prems(1) have "e' = e" by simp
    with err [OF Cons.prems(2) Inl] show ?thesis by simp
  next
    case (Inr x)
    obtain k cr1 where x: "x = (k, cr1)" by (cases x)
    with Inr Cons.prems(1) have "for_views f vs (n + k) cr1 = Inl e" by simp
    moreover from ok Inr x Cons.prems(2) have "view_tables_exist (db cr1)" by blast
    ultimately show ?thesis by (rule Cons.IH)
  qed
qed

lemma delete_view_cascade_tables:
  "delete_view_cascade depth cr v = Inr (n, cr') \<Longrightarrow> view_tables_exist (db cr) \<Longrightarrow>
   view_tables_exist (db cr')"
  by (drule delete_view_cascade_effect) (simp add: view_tables_without)

lemma for_views_tables:
  assumes "\<And>cr v n cr'. f cr v = Inr (n, cr') \<Longrightarrow> view_tables_exist (db cr) \<Longrightarrow>
               view_tables_exist (db cr')"
  shows "for_views f vs n cr = Inr (n', cr') \<Longrightarrow> view_tables_exist (db cr) \<Longrightarrow>
         view_tables_exist (db cr')"
proof (induction vs arbitrary: n cr)
  case Nil
  then show ?case by simp
next
  case (Cons v vs)
  from Cons.prems(1) obtain k cr1 where k: "f cr v = Inr (k, cr1)"
    and rest: "for_views f vs (n + k) cr1 = Inr (n', cr')"
    by (auto split: sum.splits)
  from assms [OF k Cons.prems(2)] Cons.IH [OF rest] show ?case by simp
qed

lemma delete_view_cascade_error:
  "delete_view_cascade depth cr v = Inl e \<Longrightarrow> view_tables_exist (db cr) \<Longrightarrow> e = RecursionError"
proof (induction depth arbitrary: cr v e)
  case 0
  then show ?case by simp
next
  case (Suc depth)
  from Suc.prems(2) obtain V D where V: "ir_ui_view (db cr) = Some V" and D: "ir_model_data (db cr) = Some D"
    by (auto simp: view_tables_exist_def)
  define cs where "cs = map view_id (filter (\<lambda>r. view_inherit_id r = Some v) V)"
  define cr1 where "cr1 = execute (Select_child_views v) (db cr) cr"
  have sel: "select_child_views cr v
             = Inr (map (\<lambda>r. (view_id r, view_name r)) (filter (\<lambda>r. view_inherit_id r = Some v) V), cr1)"
    by (simp add: select_child_views_def V cr1_def)
  have fst: "map fst (map (\<lambda>r. (view_id r, view_name r)) (filter (\<lambda>r. view_inherit_id r = Some v) V)) = cs"
    by (simp add: cs_def comp_def)
  have t1: "view_tables_exist (db cr1)" using Suc.prems(2) by (simp add: cr1_def execute_def)
  show ?case
  proof (cases "for_views (delete_view_cascade depth) cs 0 cr1")
    case (Inl e')
    with Suc.prems(1) sel fst have "e' = e" by simp
    moreover have "e' = RecursionError"
    proof (rule for_views_error [of "delete_view_cascade depth", OF _ _ Inl t1])
      fix cr0 :: cursor and w e0
      assume "view_tables_exist (db cr0)" "delete_view_cascade depth cr0 w = Inl e0"
      then show "e0 = RecursionError" using Suc.IH by blast
    next
      fix cr0 w m cr''
      assume "delete_view_cascade depth cr0 w = Inr (m, cr'')" "view_tables_exist (db cr0)"
      then show "view_tables_exist (db cr'')" by (rule delete_view_cascade_tables)
    qed
    ultimately show ?thesis by simp
  next
    case (Inr x)
    obtain k cr2 where x: "x = (k, cr2)" by (cases x)
    have "view_tables_exist (db cr2)"
      using for_views_tables [of "delete_view_cascade depth" cs 0 cr1 k cr2]
        delete_view_cascade_tables Inr x t1 by blast
    then obtain V2 D2 where "ir_ui_view (db cr2) = Some V2" "ir_model_data (db cr2) = Some D2"
      by (auto simp: view_tables_exist_def)
    with Suc.prems(1) sel fst Inr x show ?thesis
      by (simp add: delete_ir_model_data_view_def delete_ir_ui_view_def execute_def)
  qed
qed

subsection \<open>A view on an inheritance cycle\<close>

lemma single_valued_inherits:
  assumes "distinct (map view_id views)"
  shows "single_valued (inherits views)"
proof (rule single_valuedI)
  fix x p p'
  assume "(x, p) \<in> inherits views" "(x, p') \<in> inherits views"
  then obtain r r' where r: "r \<in> set views" "view_id r = x" "view_inherit_id r = Some p"
    and r': "r' \<in> set views" "view_id r' = x" "view_inherit_id r' = Some p'"
    by (auto simp: inherits_def)
  from assms have "inj_on view_id (set views)" by (simp add: distinct_map)
  with r r' have "r = r'" by (auto dest: inj_onD)
  with r r' show "p = p'" by simp
qed

lemma cycle_ancestor:
  assumes sv: "single_valued r" and cyc: "(z, z) \<in> r\<^sup>+"
  shows "(z, a) \<in> r\<^sup>* \<Longrightarrow> (a, z) \<in> r\<^sup>*"
proof (induction rule: rtrancl_induct)
  case base
  show ?case by simp
next
  case (step b a)
  have "\<exists>b'. (b, b') \<in> r \<and> (b', z) \<in> r\<^sup>*"
  proof (cases "b = z")
    case True
    with cyc show ?thesis by (auto dest: tranclD)
  next
    case False
    with step.IH have "(b, z) \<in> r\<^sup>+" by (auto dest: rtranclD)
    then show ?thesis by (auto dest: tranclD)
  qed
  then obtain b' where "(b, b') \<in> r" "(b', z) \<in> r\<^sup>*" by blast
  with sv step.hyps(2) show ?case by (auto dest: single_valuedD)
qed

lemma cycle_survives:
  assumes sv: "single_valued (inherits views)"
    and cyc: "(c, c) \<in> (inherits views)\<^sup>+"
    and c0: "(c0, c0) \<notin> (inherits views)\<^sup>+"
  shows "(c, c) \<in> (inherits (filter (\<lambda>r. view_id r \<notin> subtree views c0) views))\<^sup>+"
proof -
  let ?r = "inherits views"
  let ?r' = "inherits (filter (\<lambda>r. view_id r \<notin> subtree views c0) views)"
  have out: "b \<notin> subtree views c0" if b: "(b, b) \<in> ?r\<^sup>+" for b
  proof
    assume "b \<in> subtree views c0"
    then have 1: "(b, c0) \<in> ?r\<^sup>*" by (simp add: subtree_def)
    from cycle_ancestor [OF sv b 1] have 2: "(c0, b) \<in> ?r\<^sup>*" .
    have "(c0, c0) \<in> ?r\<^sup>+"
    proof (cases "b = c0")
      case True
      with b show ?thesis by simp
    next
      case False
      with 2 have "(c0, b) \<in> ?r\<^sup>+" by (auto dest: rtranclD)
      with 1 show ?thesis by simp
    qed
    with c0 show False by contradiction
  qed
  have edge: "(b, y) \<in> ?r'" if "(b, y) \<in> ?r" "b \<notin> subtree views c0" for b y
    using that by (auto simp: inherits_def)
  have "(c, y) \<in> ?r\<^sup>+ \<Longrightarrow> (y, c) \<in> ?r\<^sup>* \<Longrightarrow> (c, y) \<in> ?r'\<^sup>+" for y
  proof (induction rule: trancl_induct)
    case (base y)
    from edge [OF base.hyps out [OF cyc] ] show ?case by blast
  next
    case (step b y)
    from step.hyps(2) step.prems have bc: "(b, c) \<in> ?r\<^sup>*"
      by (auto intro: converse_rtrancl_into_rtrancl)
    with step.hyps(1) have "(b, b) \<in> ?r\<^sup>+" by simp
    from edge [OF step.hyps(2) out [OF this] ] step.IH [OF bc] show ?case
      by (auto intro: trancl_into_trancl)
  qed
  from this [OF cyc] show ?thesis by simp
qed

lemma for_views_cycle:
  assumes f: "\<And>cr v. distinct (map view_id (views_of (db cr))) \<Longrightarrow>
                (v, v) \<in> (inherits (views_of (db cr)))\<^sup>+ \<Longrightarrow> \<exists>e. f cr v = Inl e"
    and eff: "\<And>cr v n cr'. f cr v = Inr (n, cr') \<Longrightarrow>
                db cr' = without_views (subtree (views_of (db cr)) v) (db cr)"
  shows "distinct (map view_id (views_of (db cr))) \<Longrightarrow>
         \<exists>c \<in> set cs. (c, c) \<in> (inherits (views_of (db cr)))\<^sup>+ \<Longrightarrow>
         \<exists>e. for_views f cs n cr = Inl e"
proof (induction cs arbitrary: n cr)
  case Nil
  then show ?case by simp
next
  case (Cons c0 cs)
  show ?case
  proof (cases "f cr c0")
    case (Inl e)
    then show ?thesis by simp
  next
    case (Inr x)
    obtain k cr1 where x: "x = (k, cr1)" by (cases x)
    let ?V = "views_of (db cr)"
    from f [OF Cons.prems(1), of c0] Inr have c0: "(c0, c0) \<notin> (inherits ?V)\<^sup>+" by auto
    with Cons.prems(2) obtain c where c: "c \<in> set cs" "(c, c) \<in> (inherits ?V)\<^sup>+" by auto
    from eff Inr x have db1: "db cr1 = without_views (subtree ?V c0) (db cr)" by simp
    then have V1: "views_of (db cr1) = filter (\<lambda>r. view_id r \<notin> subtree ?V c0) ?V"
      by (simp add: views_of_without)
    from cycle_survives [OF single_valued_inherits [OF Cons.prems(1)] c(2) c0]
    have "(c, c) \<in> (inherits (views_of (db cr1)))\<^sup>+" by (simp add: V1)
    with c(1) have 2: "\<exists>c \<in> set cs. (c, c) \<in> (inherits (views_of (db cr1)))\<^sup>+" by blast
    from Cons.prems(1) have 1: "distinct (map view_id (views_of (db cr1)))"
      by (simp add: V1 distinct_map_filter)
    from Cons.IH [OF 1 2, of "n + k"] Inr x show ?thesis by simp
  qed
qed

lemma delete_view_cascade_cycle:
  "distinct (map view_id (views_of (db cr))) \<Longrightarrow> (v, v) \<in> (inherits (views_of (db cr)))\<^sup>+ \<Longrightarrow>
   \<exists>e. delete_view_cascade depth cr v = Inl e"
proof (induction depth arbitrary: cr v)
  case 0
  then show ?case by simp
next
  case (Suc depth)
  show ?case
  proof (cases "select_child_views cr v")
    case (Inl e)
    then show ?thesis by simp
  next
    case (Inr x)
    obtain child_views cr1 where x: "x = (child_views, cr1)" by (cases x)
    let ?V = "views_of (db cr)"
    from select_child_views_Inr [OF Inr [unfolded x] ]
    have db1: "db cr1 = db cr"
      and cs: "map fst child_views = map view_id (filter (\<lambda>r. view_inherit_id r = Some v) ?V)"
      by simp_all
    from Suc.prems(2) obtain c where c: "(v, c) \<in> (inherits ?V)\<^sup>*" "(c, v) \<in> inherits ?V"
      by (auto dest: tranclD2)
    then have "(c, c) \<in> (inherits ?V)\<^sup>+" by simp
    moreover from c(2) have "c \<in> set (map fst child_views)"
      unfolding cs by (auto simp: inherits_def)
    ultimately have 2: "\<exists>c \<in> set (map fst child_views). (c, c) \<in> (inherits (views_of (db cr1)))\<^sup>+"
      unfolding db1 by blast
    from Suc.prems(1) have 1: "distinct (map view_id (views_of (db cr1)))" by (simp add: db1)
    have "\<exists>e. for_views (delete_view_cascade depth) (map fst child_views) 0 cr1 = Inl e"
    proof (rule for_views_cycle [of "delete_view_cascade depth", OF _ _ 1 2])
      fix cr0 :: cursor and w
      assume "distinct (map view_id (views_of (db cr0)))" "(w, w) \<in> (inherits (views_of (db cr0)))\<^sup>+"
      then show "\<exists>e. delete_view_cascade depth cr0 w = Inl e" by (rule Suc.IH)
    next
      fix cr0 w m cr''
      assume "delete_view_cascade depth cr0 w = Inr (m, cr'')"
      then show "db cr'' = without_views (subtree (views_of (db cr0)) w) (db cr0)"
        by (rule delete_view_cascade_effect)
    qed
    with Inr x show ?thesis by auto
  qed
qed

lemma delete_view_cascade_succeeds:
  assumes t: "view_tables_exist (db cr)" and a: "acyclic (inherits (views_of (db cr)))"
  shows "\<exists>depth. \<forall>depth' \<ge> depth. \<exists>n cr'. delete_view_cascade depth' cr v = Inr (n, cr')"
proof -
  from a have wf: "wf (inherits (views_of (db cr)))"
    by (intro finite_acyclic_wf finite_inherits)
  have "\<exists>S. db cr = without_views S (db cr)"
    by (rule exI [of _ "{}"]) (simp add: without_views_empty)
  from delete_view_cascade_terminates [OF wf t this]
  obtain depth n cr' where "delete_view_cascade depth cr v = Inr (n, cr')" by blast
  then have "\<forall>depth' \<ge> depth. delete_view_cascade depth' cr v = Inr (n, cr')"
    by (auto intro: delete_view_cascade_mono)
  then show ?thesis by blast
qed

lemma count_removed:
  "n + length (filter (\<lambda>r. view_id r \<notin> S) V) = length V \<Longrightarrow>
   n = length (filter (\<lambda>r. view_id r \<in> S) V)"
  using sum_length_filter_compl [of "\<lambda>r. view_id r \<in> S" V] by simp

lemma tree_acyclic: "acyclic (inherits (views_of (db tree_cr)))"
proof (rule acyclicI_order [where f = "\<lambda>x. x"])
  fix a b assume "(a, b) \<in> inherits (views_of (db tree_cr))"
  then show "b < a" by (auto simp: inherits_def views_of_def tree_cr_def tree_views_def)
qed

lemma tree_run:
  "delete_view_cascade 3 tree_cr 1 =
     Inr (4, \<lparr>db = tree_cascaded_db,
             executed =
               [Select_child_views 1,
                Select_child_views 2,
                Select_child_views 4, Delete_ir_model_data_view 4, Delete_ir_ui_view 4,
                Delete_ir_model_data_view 2, Delete_ir_ui_view 2,
                Select_child_views 3, Delete_ir_model_data_view 3, Delete_ir_ui_view 3,
                Delete_ir_model_data_view 1, Delete_ir_ui_view 1]\<rparr>)"
  by code_simp

subsection \<open>The settings views\<close>

lemma fst_left_join_data: "fst ` set (left_join_data rows v) = {view_id v}"
  by (cases "filter (view_data (view_id v)) rows") (auto simp: left_join_data_def image_image)

lemma select_settings_views_Inr:
  assumes "select_settings_views cr pattern = Inr (rows, cr1)"
  shows "db cr1 = db cr" and "executed cr1 = executed cr @ [Select_settings_views pattern]"
    and "set (map fst rows) = view_id ` {r \<in> set (views_of (db cr)). settings_view pattern r}"
    and "view_tables_exist (db cr)"
proof -
  from assms obtain V D where V: "ir_ui_view (db cr) = Some V" and D: "ir_model_data (db cr) = Some D"
    by (auto simp: select_settings_views_def split: option.splits)
  from assms V D have rows: "rows = concat (map (left_join_data D) (filter (settings_view pattern) V))"
    and cr1: "cr1 = execute (Select_settings_views pattern) (db cr) cr"
    by (auto simp: select_settings_views_def)
  from cr1 show "db cr1 = db cr" "executed cr1 = executed cr @ [Select_settings_views pattern]"
    by (simp_all add: execute_def)
  from V D show "view_tables_exist (db cr)" by (simp add: view_tables_exist_def)
  have "set (map fst rows) = (\<Union>v \<in> set (filter (settings_view pattern) V). fst ` set (left_join_data D v))"
    unfolding rows by (simp add: image_UN)
  also have "\<dots> = (\<Union>v \<in> set (filter (settings_view pattern) V). {view_id v})"
    by (simp only: fst_left_join_data)
  also have "\<dots> = view_id ` {r \<in> set V. settings_view pattern r}"
    by auto
  finally show "set (map fst rows) = view_id ` {r \<in> set (views_of (db cr)). settings_view pattern r}"
    by (simp add: views_of_def V)
qed

lemma for_patterns_effect:
  "for_patterns depth ps n cr = Inr (n', cr') \<Longrightarrow> db cr = without_views S d0 \<Longrightarrow>
   closed (views_of d0) S \<Longrightarrow>
   db cr' = without_views
     (S \<union> (\<Union>r \<in> {r \<in> set (views_of d0). \<exists>p \<in> set ps. settings_view p r}.
              subtree (views_of d0) (view_id r))) d0"
proof (induction ps arbitrary: n cr S)
  case Nil
  then show ?case by simp
next
  case (Cons p ps)
  let ?V = "views_of d0"
  from Cons.prems(1) obtain rows cr1 k cr2 where
    sel: "select_settings_views cr p = Inr (rows, cr1)"
    and loop: "for_views (delete_view_cascade depth) (map fst rows) n cr1 = Inr (k, cr2)"
    and rest: "for_patterns depth ps k cr2 = Inr (n', cr')"
    by (auto split: sum.splits)
  from select_settings_views_Inr [OF sel] have db1: "db cr1 = db cr"
    and ids: "set (map fst rows) = view_id ` {r \<in> set (views_of (db cr)). settings_view p r}"
    by simp_all
  have V1: "views_of (db cr) = filter (\<lambda>r. view_id r \<notin> S) ?V"
    by (simp add: Cons.prems(2) views_of_without)
  let ?S1 = "S \<union> (\<Union>r \<in> {r \<in> set ?V. settings_view p r}. subtree ?V (view_id r))"
  have "db cr1 = without_views S d0" by (simp add: db1 Cons.prems(2))
  from for_views_effect [OF delete_view_cascade_effect loop this Cons.prems(3)]
  have "db cr2 = without_views (S \<union> (\<Union>v \<in> set (map fst rows). subtree ?V v)) d0" .
  moreover have "S \<union> (\<Union>v \<in> set (map fst rows). subtree ?V v) = ?S1"
  proof -
    have "subtree ?V (view_id r) \<subseteq> S \<union> (\<Union>v \<in> set (map fst rows). subtree ?V v)"
      if r: "r \<in> set ?V" "settings_view p r" for r
    proof (cases "view_id r \<in> S")
      case True
      from closed_subtree_in [OF Cons.prems(3) True] show ?thesis by blast
    next
      case False
      with r have "view_id r \<in> set (map fst rows)" unfolding ids V1 by auto
      then show ?thesis by blast
    qed
    moreover have "(\<Union>v \<in> set (map fst rows). subtree ?V v) \<subseteq> ?S1"
      unfolding ids V1 by auto
    ultimately show ?thesis by blast
  qed
  ultimately have 2: "db cr2 = without_views ?S1 d0" by simp
  have 3: "closed ?V ?S1"
    by (intro closed_Un closed_UN closed_subtree Cons.prems(3))
  have "?S1 \<union> (\<Union>r \<in> {r \<in> set ?V. \<exists>p \<in> set ps. settings_view p r}. subtree ?V (view_id r))
        = S \<union> (\<Union>r \<in> {r \<in> set ?V. \<exists>p' \<in> set (p # ps). settings_view p' r}. subtree ?V (view_id r))"
    by auto
  with Cons.IH [OF rest 2 3] show ?case by simp
qed

lemma fix_incompatible_settings_views_effect:
  assumes "fix_incompatible_settings_views depth cr = Inr cr'"
  shows "db cr' = without_views (condemned (views_of (db cr))) (db cr)"
proof -
  from assms obtain n where run: "for_patterns depth problematic_patterns 0 cr = Inr (n, cr')"
    by (auto simp: fix_incompatible_settings_views_def split: sum.splits)
  have "db cr = without_views {} (db cr)" by (simp add: without_views_empty)
  from for_patterns_effect [OF run this closed_empty] show ?thesis
    by (simp add: condemned_def incompatible_def)
qed

lemma subtree_ids: "subtree views v \<subseteq> insert v (view_id ` set views)"
proof
  fix x assume "x \<in> subtree views v"
  then have "(x, v) \<in> (inherits views)\<^sup>*" by (simp add: subtree_def)
  then show "x \<in> insert v (view_id ` set views)"
    by (cases rule: converse_rtranclE) (auto simp: inherits_def)
qed

lemma condemned_ids: "condemned views \<subseteq> view_id ` set views"
  using subtree_ids by (fastforce simp: condemned_def)

lemma for_patterns_mono:
  "for_patterns depth ps n cr = Inr y \<Longrightarrow> depth \<le> depth' \<Longrightarrow> for_patterns depth' ps n cr = Inr y"
proof (induction ps arbitrary: n cr)
  case Nil
  then show ?case by simp
next
  case (Cons p ps)
  from Cons.prems(1) obtain rows cr1 k cr2 where
    sel: "select_settings_views cr p = Inr (rows, cr1)"
    and loop: "for_views (delete_view_cascade depth) (map fst rows) n cr1 = Inr (k, cr2)"
    and rest: "for_patterns depth ps k cr2 = Inr y"
    by (auto split: sum.splits)
  have "for_views (delete_view_cascade depth') (map fst rows) n cr1 = Inr (k, cr2)"
    by (rule for_views_mono [OF _ loop]) (rule delete_view_cascade_mono [OF Cons.prems(2)])
  with sel Cons.IH [OF rest Cons.prems(2)] show ?case by simp
qed

lemma for_patterns_terminates:
  assumes wf: "wf (inherits (views_of d0))"
  shows "view_tables_exist (db cr) \<Longrightarrow> \<exists>S. db cr = without_views S d0 \<Longrightarrow>
         \<exists>depth n' cr'. for_patterns depth ps n cr = Inr (n', cr')"
proof (induction ps arbitrary: n cr)
  case Nil
  then show ?case by simp
next
  case (Cons p ps)
  from Cons.prems(1) obtain V D where V: "ir_ui_view (db cr) = Some V" and D: "ir_model_data (db cr) = Some D"
    by (auto simp: view_tables_exist_def)
  then obtain rows cr1 where sel: "select_settings_views cr p = Inr (rows, cr1)"
    by (simp add: select_settings_views_def)
  from select_settings_views_Inr(1) [OF sel] have db1: "db cr1 = db cr" .
  have ok1: "view_tables_exist (db cr1)" "\<exists>S. db cr1 = without_views S d0"
    using Cons.prems by (simp_all add: db1)
  have "\<exists>depth n' cr'. for_views (delete_view_cascade depth) (map fst rows) n cr1 = Inr (n', cr')
             \<and> view_tables_exist (db cr') \<and> (\<exists>S. db cr' = without_views S d0)"
    by (rule for_views_terminates [OF _ ok1]) (rule delete_view_cascade_terminates [OF wf])
  then obtain d1 k cr2 where
    loop: "for_views (delete_view_cascade d1) (map fst rows) n cr1 = Inr (k, cr2)"
    and ok2: "view_tables_exist (db cr2)" "\<exists>S. db cr2 = without_views S d0" by blast
  from Cons.IH [OF ok2] obtain d2 n' cr' where rest: "for_patterns d2 ps k cr2 = Inr (n', cr')"
    by blast
  let ?d = "max d1 d2"
  have "for_views (delete_view_cascade ?d) (map fst rows) n cr1 = Inr (k, cr2)"
    by (rule for_views_mono [OF _ loop]) (auto intro: delete_view_cascade_mono [of d1 ?d])
  moreover have "for_patterns ?d ps k cr2 = Inr (n', cr')"
    by (rule for_patterns_mono [OF rest]) simp
  ultimately have "for_patterns ?d (p # ps) n cr = Inr (n', cr')"
    using sel by simp
  then show ?case by blast
qed

lemma fix_incompatible_settings_views_succeeds:
  assumes t: "view_tables_exist (db cr)" and a: "acyclic (inherits (views_of (db cr)))"
  shows "\<exists>depth. \<forall>depth' \<ge> depth. \<exists>cr'. fix_incompatible_settings_views depth' cr = Inr cr'"
proof -
  from a have wf: "wf (inherits (views_of (db cr)))"
    by (intro finite_acyclic_wf finite_inherits)
  have "\<exists>S. db cr = without_views S (db cr)"
    by (rule exI [of _ "{}"]) (simp add: without_views_empty)
  from for_patterns_terminates [OF wf t this]
  obtain depth n cr' where "for_patterns depth problematic_patterns 0 cr = Inr (n, cr')" by blast
  then have "\<forall>depth' \<ge> depth. for_patterns depth' problematic_patterns 0 cr = Inr (n, cr')"
    by (auto intro: for_patterns_mono)
  then have "\<forall>depth' \<ge> depth. fix_incompatible_settings_views depth' cr = Inr cr'"
    by (simp add: fix_incompatible_settings_views_def)
  then show ?thesis by blast
qed


subsection \<open>What each repair step establishes, and what it leaves alone\<close>

lemma update_same: "\<forall>r \<in> set rows. \<not> P r \<Longrightarrow> map (\<lambda>r. if P r then f r else r) rows = rows"
  by (induction rows) auto

lemma shrunk_cron: "shrunk d d' \<Longrightarrow> cron_repaired d \<Longrightarrow> cron_repaired d'"
  by (simp add: shrunk_def cron_repaired_def)

lemma shrunk_edi: "shrunk d d' \<Longrightarrow> edi_repaired d \<Longrightarrow> edi_repaired d'"
  by (cases "ir_model_data d"; cases "ir_model_data d'")
     (auto simp: shrunk_def edi_repaired_def split: option.splits)

lemma shrunk_wizard: "shrunk d d' \<Longrightarrow> wizard_repaired d \<Longrightarrow> wizard_repaired d'"
  by (cases "ir_model_data d"; cases "ir_model_data d'"; cases "ir_model_access d";
      cases "ir_model_access d'")
     (auto simp: shrunk_def wizard_repaired_def split: option.splits)

lemma shrunk_without_views: "shrunk d (without_views S d)"
  by (cases "ir_model_data d"; cases "ir_model_access d")
     (auto simp: shrunk_def without_views_def)

lemma fix_fatturapa_cron_Inr:
  assumes "fix_fatturapa_cron cr = Inr cr'"
  shows "cron_repaired (db cr')"
    and "executed cr' = executed cr @ [Update_ir_cron_active]"
proof -
  from assms obtain rows where rows: "ir_cron (db cr) = Some rows"
    and cr': "cr' = execute Update_ir_cron_active
                 ((db cr)\<lparr>ir_cron :=
                    Some (map (\<lambda>r. if fatturapa_cron r then r\<lparr>cron_active := False\<rparr> else r) rows)\<rparr>) cr"
    by (auto simp: fix_fatturapa_cron_def update_ir_cron_active_def split: option.splits)
  show "cron_repaired (db cr')"
    by (auto simp: cr' execute_def cron_repaired_def fatturapa_cron_def)
  show "executed cr' = executed cr @ [Update_ir_cron_active]"
    by (simp add: cr' execute_def)
qed

lemma fix_fatturapa_cron_repaired:
  assumes "cron_repaired (db cr)"
  shows "\<exists>cr'. fix_fatturapa_cron cr = Inr cr' \<and> db cr' = db cr
           \<and> executed cr' = executed cr @ [Update_ir_cron_active]"
proof -
  from assms obtain rows where rows: "ir_cron (db cr) = Some rows"
    and no: "\<forall>r \<in> set rows. \<not> fatturapa_cron r"
    by (auto simp: cron_repaired_def split: option.splits)
  have "(db cr)\<lparr>ir_cron := Some rows\<rparr> = db cr" using rows by (cases "db cr") simp
  with rows show ?thesis
    by (simp add: fix_fatturapa_cron_def update_ir_cron_active_def execute_def update_same [OF no])
qed

lemma fix_edi_format_noupdate_Inr:
  assumes "fix_edi_format_noupdate cr = Inr cr'"
  shows "edi_repaired (db cr')" and "ir_cron (db cr') = ir_cron (db cr)"
proof -
  show "edi_repaired (db cr')"
  proof (cases "account_edi_document (db cr)")
    case None
    with assms show ?thesis
      by (auto simp: fix_edi_format_noupdate_def select_exists_account_edi_document_def execute_def
          edi_repaired_def)
  next
    case (Some docs)
    with assms obtain rows where rows: "ir_model_data (db cr) = Some rows"
      by (auto simp: fix_edi_format_noupdate_def select_exists_account_edi_document_def execute_def
          update_noupdate_edi_fatturaPA_def split: option.splits)
    from assms Some rows show ?thesis
      by (auto simp: fix_edi_format_noupdate_def select_exists_account_edi_document_def execute_def
          update_noupdate_edi_fatturaPA_def update_noupdate_edi_formats_def edi_repaired_def
          edi_fatturaPA_data_def linked_edi_format_def split: if_splits)
  qed
  from assms show "ir_cron (db cr') = ir_cron (db cr)"
    by (auto simp: fix_edi_format_noupdate_def select_exists_account_edi_document_def execute_def
        update_noupdate_edi_fatturaPA_def update_noupdate_edi_formats_def
        split: if_splits option.splits)
qed

lemma fix_edi_format_noupdate_repaired:
  assumes "edi_repaired (db cr)"
  shows "\<exists>cr'. fix_edi_format_noupdate cr = Inr cr' \<and> db cr' = db cr"
proof (cases "account_edi_document (db cr)")
  case None
  then show ?thesis
    by (simp add: fix_edi_format_noupdate_def select_exists_account_edi_document_def execute_def)
next
  case (Some docs)
  with assms obtain rows where rows: "ir_model_data (db cr) = Some rows"
    and no1: "\<forall>r \<in> set rows. \<not> edi_fatturaPA_data r"
    and no2: "\<forall>r \<in> set rows. \<not> linked_edi_format docs r"
    by (auto simp: edi_repaired_def split: option.splits)
  have "(db cr)\<lparr>ir_model_data := Some rows\<rparr> = db cr" using rows by (cases "db cr") simp
  with Some rows show ?thesis
    by (simp add: fix_edi_format_noupdate_def select_exists_account_edi_document_def execute_def
        update_noupdate_edi_fatturaPA_def update_noupdate_edi_formats_def
        update_same [OF no1] update_same [OF no2])
qed

lemma fix_project_delete_wizard_Inr:
  assumes "fix_project_delete_wizard cr = Inr cr'"
  shows "wizard_repaired (db cr')" and "shrunk (db cr) (db cr')"
proof -
  from assms obtain models where models: "ir_model (db cr) = Some models"
    by (auto simp: fix_project_delete_wizard_def select_ir_model_wizard_def split: option.splits)
  show "wizard_repaired (db cr')"
  proof (cases "wizard_ids models = []")
    case True
    with assms models show ?thesis
      by (auto simp: fix_project_delete_wizard_def select_ir_model_wizard_def execute_def
          wizard_repaired_def)
  next
    case False
    with assms models obtain acc rows where "ir_model_access (db cr) = Some acc"
      "ir_model_data (db cr) = Some rows"
      by (auto simp: fix_project_delete_wizard_def select_ir_model_wizard_def execute_def
          delete_ir_model_access_wizard_def delete_ir_model_data_wizard_def 
          split: option.splits)
    with assms models False show ?thesis
      by (auto simp: fix_project_delete_wizard_def select_ir_model_wizard_def execute_def
          delete_ir_model_access_wizard_def delete_ir_model_data_wizard_def 
          wizard_repaired_def Let_def)
  qed
  from assms models show "shrunk (db cr) (db cr')"
    by (cases "ir_model_access (db cr)"; cases "ir_model_data (db cr)")
       (auto simp: fix_project_delete_wizard_def select_ir_model_wizard_def execute_def
          delete_ir_model_access_wizard_def delete_ir_model_data_wizard_def shrunk_def Let_def
          split: if_splits)
qed

lemma filter_same: "\<forall>r \<in> set rows. P r \<Longrightarrow> filter P rows = rows"
  by (induction rows) auto

lemma fix_project_delete_wizard_repaired:
  assumes "wizard_repaired (db cr)"
  shows "\<exists>cr'. fix_project_delete_wizard cr = Inr cr' \<and> db cr' = db cr"
proof -
  from assms obtain models where models: "ir_model (db cr) = Some models"
    by (auto simp: wizard_repaired_def split: option.splits)
  show ?thesis
  proof (cases "wizard_ids models = []")
    case True
    with models show ?thesis
      by (simp add: fix_project_delete_wizard_def select_ir_model_wizard_def execute_def)
  next
    case False
    with assms models obtain acc rows where acc: "ir_model_access (db cr) = Some acc"
      and rows: "ir_model_data (db cr) = Some rows"
      and no1: "\<forall>a \<in> set acc. access_model_id a \<notin> set (wizard_ids models)"
      and no2: "\<forall>r \<in> set rows. \<not> wizard_data r"
      by (auto simp: wizard_repaired_def split: option.splits)
    have "(db cr)\<lparr>ir_model_access := Some acc\<rparr> = db cr" using acc by (cases "db cr") simp
    moreover have "(db cr)\<lparr>ir_model_data := Some rows\<rparr> = db cr" using rows by (cases "db cr") simp
    ultimately show ?thesis using models acc rows False
      by (simp add: fix_project_delete_wizard_def select_ir_model_wizard_def execute_def
          delete_ir_model_access_wizard_def delete_ir_model_data_wizard_def Let_def
          filter_same [OF no1] filter_same [OF no2])
  qed
qed

lemma fix_incompatible_settings_views_Inr:
  assumes "fix_incompatible_settings_views depth cr = Inr cr'"
  shows "views_repaired (db cr')" and "shrunk (db cr) (db cr')"
proof -
  let ?V = "views_of (db cr)"
  from fix_incompatible_settings_views_effect [OF assms]
  have eff: "db cr' = without_views (condemned ?V) (db cr)" .
  then show "shrunk (db cr) (db cr')" by (simp add: shrunk_without_views)
  from assms obtain n where "for_patterns depth problematic_patterns 0 cr = Inr (n, cr')"
    by (auto simp: fix_incompatible_settings_views_def split: sum.splits)
  then obtain rows cr1 where "select_settings_views cr (hd problematic_patterns) = Inr (rows, cr1)"
    by (auto simp: problematic_patterns_def split: sum.splits)
  from select_settings_views_Inr(4) [OF this] have t: "view_tables_exist (db cr)" .
  have "\<not> incompatible r" if "r \<in> set ?V" "view_id r \<notin> condemned ?V" for r
  proof
    assume "incompatible r"
    with that(1) have "subtree ?V (view_id r) \<subseteq> condemned ?V" by (auto simp: condemned_def)
    with subtree_self that(2) show False by blast
  qed
  with t show "views_repaired (db cr')"
    by (simp add: views_repaired_def eff view_tables_without views_of_without)
qed

lemma for_patterns_nothing:
  "view_tables_exist (db cr) \<Longrightarrow>
   \<forall>p \<in> set ps. \<forall>r \<in> set (views_of (db cr)). \<not> settings_view p r \<Longrightarrow>
   \<exists>cr'. for_patterns depth ps n cr = Inr (n, cr') \<and> db cr' = db cr
         \<and> executed cr' = executed cr @ map Select_settings_views ps"
proof (induction ps arbitrary: cr)
  case Nil
  then show ?case by simp
next
  case (Cons p ps)
  from Cons.prems(1) obtain V D where V: "ir_ui_view (db cr) = Some V" and D: "ir_model_data (db cr) = Some D"
    by (auto simp: view_tables_exist_def)
  from Cons.prems(2) V have "filter (settings_view p) V = []"
    by (auto simp: views_of_def filter_empty_conv)
  with V D have sel: "select_settings_views cr p = Inr ([], execute (Select_settings_views p) (db cr) cr)"
    by (simp add: select_settings_views_def)
  let ?cr1 = "execute (Select_settings_views p) (db cr) cr"
  have db1: "db ?cr1 = db cr" by (simp add: execute_def)
  from Cons.IH [of ?cr1] Cons.prems obtain cr' where
    "for_patterns depth ps n ?cr1 = Inr (n, cr')" "db cr' = db cr"
    "executed cr' = executed ?cr1 @ map Select_settings_views ps"
    by (auto simp: db1)
  with sel show ?case by (simp add: execute_def)
qed

lemma fix_incompatible_settings_views_repaired:
  assumes "views_repaired (db cr)"
  shows "\<exists>cr'. fix_incompatible_settings_views depth cr = Inr cr' \<and> db cr' = db cr
           \<and> executed cr' = executed cr @ map Select_settings_views problematic_patterns"
proof -
  from assms have t: "view_tables_exist (db cr)"
    and no: "\<forall>p \<in> set problematic_patterns. \<forall>r \<in> set (views_of (db cr)). \<not> settings_view p r"
    by (auto simp: views_repaired_def incompatible_def)
  from for_patterns_nothing [OF t no, of depth 0] show ?thesis
    by (auto simp: fix_incompatible_settings_views_def)
qed

lemma migrate_repaired:
  assumes "migrate depth cr version = Inr cr'" and "\<not> falsy_version version"
  shows "cron_repaired (db cr') \<and> edi_repaired (db cr') \<and> wizard_repaired (db cr')
         \<and> views_repaired (db cr')"
proof -
  from assms obtain cr1 cr2 cr3 where
    1: "fix_fatturapa_cron cr = Inr cr1" and 2: "fix_edi_format_noupdate cr1 = Inr cr2"
    and 3: "fix_project_delete_wizard cr2 = Inr cr3"
    and 4: "fix_incompatible_settings_views depth cr3 = Inr cr'"
    by (auto simp: migrate_def split: sum.splits)
  from fix_fatturapa_cron_Inr(1) [OF 1] fix_edi_format_noupdate_Inr(2) [OF 2]
  have c2: "cron_repaired (db cr2)" by (simp add: cron_repaired_def)
  note e2 = fix_edi_format_noupdate_Inr(1) [OF 2]
  note s3 = fix_project_delete_wizard_Inr(2) [OF 3]
  note w3 = fix_project_delete_wizard_Inr(1) [OF 3]
  note s4 = fix_incompatible_settings_views_Inr(2) [OF 4]
  from shrunk_cron [OF s4 shrunk_cron [OF s3 c2] ] shrunk_edi [OF s4 shrunk_edi [OF s3 e2] ]
    shrunk_wizard [OF s4 w3] fix_incompatible_settings_views_Inr(1) [OF 4]
  show ?thesis by simp
qed

lemma migrate_on_repaired:
  assumes "cron_repaired (db cr)" "edi_repaired (db cr)" "wizard_repaired (db cr)"
    "views_repaired (db cr)"
  shows "\<exists>cr'. migrate depth cr version = Inr cr' \<and> db cr' = db cr"
proof (cases "falsy_version version")
  case True
  then show ?thesis by (simp add: migrate_def)
next
  case False
  from fix_fatturapa_cron_repaired [OF assms(1)] obtain cr1 where
    1: "fix_fatturapa_cron cr = Inr cr1" "db cr1 = db cr" by blast
  from fix_edi_format_noupdate_repaired [of cr1] assms(2) 1(2) obtain cr2 where
    2: "fix_edi_format_noupdate cr1 = Inr cr2" "db cr2 = db cr" by auto
  from fix_project_delete_wizard_repaired [of cr2] assms(3) 2(2) obtain cr3 where
    3: "fix_project_delete_wizard cr2 = Inr cr3" "db cr3 = db cr" by auto
  from fix_incompatible_settings_views_repaired [of cr3 depth] assms(4) 3(2) obtain cr4 where
    4: "fix_incompatible_settings_views depth cr3 = Inr cr4" "db cr4 = db cr" by auto
  from False 1 2 3 4 show ?thesis by (simp add: migrate_def)
qed

lemma tree_fix_run:
  "fix_incompatible_settings_views 2 tree_cr =
     Inr \<lparr>db = tree_fixed_db,
          executed =
            [Select_settings_views (problematic_patterns ! 0),
             Select_child_views 2,
             Select_child_views 4, Delete_ir_model_data_view 4, Delete_ir_ui_view 4,
             Delete_ir_model_data_view 2, Delete_ir_ui_view 2,
             Select_settings_views (problematic_patterns ! 1),
             Select_settings_views (problematic_patterns ! 2),
             Select_settings_views (problematic_patterns ! 3)]\<rparr>"
  by code_simp

lemma legacy_run:
  "migrate 2 legacy_cr (Some ''17.0.1.3'') =
     Inr \<lparr>db = migrated_db,
          executed =
            [Update_ir_cron_active, Select_exists_account_edi_document,
             Update_noupdate_edi_fatturaPA, Update_noupdate_edi_formats,
             Select_ir_model_wizard, Delete_ir_model_access_wizard, Delete_ir_model_data_wizard,
             Select_settings_views (problematic_patterns ! 0),
             Select_child_views 2,
             Select_child_views 4, Delete_ir_model_data_view 4, Delete_ir_ui_view 4,
             Delete_ir_model_data_view 2, Delete_ir_ui_view 2,
             Select_settings_views (problematic_patterns ! 1),
             Select_settings_views (problematic_patterns ! 2),
             Select_settings_views (problematic_patterns ! 3)]\<rparr>"
  by code_simp

text \<open>
  C2. For every view id, \<open>_delete_view_cascade\<close> first deletes, depth-first, every view
  whose parent reference points to it, then the view's own metadata rows, then the view
  row itself, and returns the number of deleted view rows.

  Stated for a database whose view tables exist, whose inheritance has no cycle and whose
  view ids are distinct (\<open>id\<close> is the primary key): with enough stack the call returns;
  the database is then the old one without the views of the subtree and their metadata,
  the result is the number of view rows of the subtree, and the statements for the
  children lie between the query for the children and the two final deletions.
\<close>

theorem C2_cascade_deletes_subtree:
  assumes "view_tables_exist (db cr)"
    and "acyclic (inherits (views_of (db cr)))"
    and "distinct (map view_id (views_of (db cr)))"
  shows "\<exists>depth. \<forall>depth' \<ge> depth. \<exists>n cr' mid.
           delete_view_cascade depth' cr v = Inr (n, cr')
           \<and> db cr' = without_views (subtree (views_of (db cr)) v) (db cr)
           \<and> n = length (filter (\<lambda>r. view_id r \<in> subtree (views_of (db cr)) v) (views_of (db cr)))
           \<and> executed cr' = executed cr @ Select_child_views v # mid
                              @ [Delete_ir_model_data_view v, Delete_ir_ui_view v]"
proof -
  from delete_view_cascade_succeeds [OF assms(1,2)] obtain depth where
    d: "\<forall>depth' \<ge> depth. \<exists>n cr'. delete_view_cascade depth' cr v = Inr (n, cr')" by blast
  show ?thesis
  proof (rule exI [of _ depth], intro allI impI)
    fix depth' assume "depth \<le> depth'"
    with d obtain n cr' where run: "delete_view_cascade depth' cr v = Inr (n, cr')" by blast
    let ?V = "views_of (db cr)"
    from delete_view_cascade_effect [OF run]
    have eff: "db cr' = without_views (subtree ?V v) (db cr)" .
    from delete_view_cascade_count [OF run assms(3)]
    have "n + length (filter (\<lambda>r. view_id r \<notin> subtree ?V v) ?V) = length ?V"
      by (simp add: eff views_of_without)
    then have cnt: "n = length (filter (\<lambda>r. view_id r \<in> subtree ?V v) ?V)"
      by (rule count_removed)
    from delete_view_cascade_executed [OF run] obtain mid where
      "executed cr' = executed cr @ Select_child_views v # mid
                        @ [Delete_ir_model_data_view v, Delete_ir_ui_view v]" by blast
    with run eff cnt show "\<exists>n cr' mid.
           delete_view_cascade depth' cr v = Inr (n, cr')
           \<and> db cr' = without_views (subtree ?V v) (db cr)
           \<and> n = length (filter (\<lambda>r. view_id r \<in> subtree ?V v) ?V)
           \<and> executed cr' = executed cr @ Select_child_views v # mid
                              @ [Delete_ir_model_data_view v, Delete_ir_ui_view v]"
      by blast
  qed
qed

text \<open>
  View 1 with the children 2 and 3 and the grandchild 4: the call returns 4, the four
  view rows and the metadata rows of views 1 and 2 are gone, view 5 and the other
  metadata rows stay, and the statements run in depth-first order.
\<close>

theorem C2_cascade_deletes_subtree_witness:
  "view_tables_exist (db tree_cr)
   \<and> acyclic (inherits (views_of (db tree_cr)))
   \<and> distinct (map view_id (views_of (db tree_cr)))
   \<and> delete_view_cascade 3 tree_cr 1 =
       Inr (4, \<lparr>db = tree_cascaded_db,
               executed =
                 [Select_child_views 1,
                  Select_child_views 2,
                  Select_child_views 4, Delete_ir_model_data_view 4, Delete_ir_ui_view 4,
                  Delete_ir_model_data_view 2, Delete_ir_ui_view 2,
                  Select_child_views 3, Delete_ir_model_data_view 3, Delete_ir_ui_view 3,
                  Delete_ir_model_data_view 1, Delete_ir_ui_view 1]\<rparr>)
   \<and> (4::nat) = length (filter (\<lambda>r. view_id r \<in> subtree tree_views 1) tree_views)
   \<and> without_views (subtree tree_views 1) (db tree_cr) = tree_cascaded_db"
proof -
  have h1: "view_tables_exist (db tree_cr)"
    by (simp add: view_tables_exist_def tree_cr_def)
  have h2: "acyclic (inherits (views_of (db tree_cr)))" by (rule tree_acyclic)
  have h3: "distinct (map view_id (views_of (db tree_cr)))"
    by (simp add: views_of_def tree_cr_def tree_views_def)
  have V: "views_of (db tree_cr) = tree_views" by (simp add: views_of_def tree_cr_def)
  from C2_cascade_deletes_subtree [OF h1 h2 h3, of 1] obtain depth where
    d: "\<forall>depth' \<ge> depth. \<exists>n cr' mid.
           delete_view_cascade depth' tree_cr 1 = Inr (n, cr')
           \<and> db cr' = without_views (subtree tree_views 1) (db tree_cr)
           \<and> n = length (filter (\<lambda>r. view_id r \<in> subtree tree_views 1) tree_views)
           \<and> executed cr' = executed tree_cr @ Select_child_views 1 # mid
                              @ [Delete_ir_model_data_view 1, Delete_ir_ui_view 1]"
    unfolding V by blast
  have "depth \<le> max depth 3" by simp
  with d obtain n cr' where
    run: "delete_view_cascade (max depth 3) tree_cr 1 = Inr (n, cr')"
    and eff: "db cr' = without_views (subtree tree_views 1) (db tree_cr)"
    and cnt: "n = length (filter (\<lambda>r. view_id r \<in> subtree tree_views 1) tree_views)"
    by blast
  from delete_view_cascade_mono [OF _ tree_run, of "max depth 3"] run
  have "n = 4" and "db cr' = tree_cascaded_db"
    by auto
  with h1 h2 h3 tree_run eff cnt show ?thesis by simp
qed

text \<open>
  C8. On a finite view table whose parent reference has no cycle, \<open>_delete_view_cascade\<close>
  terminates for every view id: with enough stack it returns. When the view lies on a
  cycle of the parent reference, no stack is enough: whatever the depth allowed, the
  recursion uses it up and the call ends in \<open>RecursionError\<close>.
\<close>

theorem C8_cascade_termination:
  "(view_tables_exist (db cr) \<and> acyclic (inherits (views_of (db cr))) \<longrightarrow>
      (\<exists>depth. \<forall>depth' \<ge> depth. \<exists>n cr'. delete_view_cascade depth' cr v = Inr (n, cr')))
   \<and> (view_tables_exist (db cr) \<and> distinct (map view_id (views_of (db cr)))
        \<and> (v, v) \<in> (inherits (views_of (db cr)))\<^sup>+ \<longrightarrow>
      (\<forall>depth. delete_view_cascade depth cr v = Inl RecursionError))"
proof (intro conjI impI allI)
  assume "view_tables_exist (db cr) \<and> acyclic (inherits (views_of (db cr)))"
  then show "\<exists>depth. \<forall>depth' \<ge> depth. \<exists>n cr'. delete_view_cascade depth' cr v = Inr (n, cr')"
    using delete_view_cascade_succeeds by blast
next
  fix depth
  assume a: "view_tables_exist (db cr) \<and> distinct (map view_id (views_of (db cr)))
        \<and> (v, v) \<in> (inherits (views_of (db cr)))\<^sup>+"
  then obtain e where "delete_view_cascade depth cr v = Inl e"
    using delete_view_cascade_cycle by blast
  with a delete_view_cascade_error show "delete_view_cascade depth cr v = Inl RecursionError"
    by blast
qed

theorem C8_cascade_termination_witness:
  "view_tables_exist (db tree_cr) \<and> acyclic (inherits (views_of (db tree_cr)))
   \<and> (\<exists>depth n cr'. delete_view_cascade depth tree_cr 1 = Inr (n, cr'))
   \<and> view_tables_exist (db cycle_cr) \<and> distinct (map view_id (views_of (db cycle_cr)))
   \<and> (1, 1) \<in> (inherits (views_of (db cycle_cr)))\<^sup>+
   \<and> delete_view_cascade 1000 cycle_cr 1 = Inl RecursionError"
proof -
  have h1: "view_tables_exist (db tree_cr)"
    by (simp add: view_tables_exist_def tree_cr_def)
  have h2: "acyclic (inherits (views_of (db tree_cr)))" by (rule tree_acyclic)
  have h3: "view_tables_exist (db cycle_cr)"
    by (simp add: view_tables_exist_def cycle_cr_def)
  have h4: "distinct (map view_id (views_of (db cycle_cr)))"
    by (simp add: views_of_def cycle_cr_def)
  have "(1, 2) \<in> inherits (views_of (db cycle_cr))" "(2, 1) \<in> inherits (views_of (db cycle_cr))"
    by (force simp: inherits_def views_of_def cycle_cr_def)+
  then have h5: "(1, 1) \<in> (inherits (views_of (db cycle_cr)))\<^sup>+" by auto
  from C8_cascade_termination [of tree_cr 1] h1 h2
  have a: "\<exists>depth n cr'. delete_view_cascade depth tree_cr 1 = Inr (n, cr')" by blast
  from C8_cascade_termination [of cycle_cr 1] h3 h4 h5
  have b: "delete_view_cascade 1000 cycle_cr 1 = Inl RecursionError" by blast
  from h1 h2 h3 h4 h5 a b show ?thesis by blast
qed

text \<open>
  C10. With a falsy \<open>version\<close> (\<open>None\<close> or the empty string) \<open>migrate\<close> returns at once:
  the cursor is returned as it was, so no statement was executed and the database is
  unchanged.
\<close>

theorem C10_falsy_version_returns:
  "migrate depth cr None = Inr cr \<and> migrate depth cr (Some []) = Inr cr"
  by (simp add: migrate_def falsy_version_def)

theorem C10_falsy_version_returns_witness:
  "migrate 2 legacy_cr None = Inr legacy_cr \<and> migrate 2 legacy_cr (Some []) = Inr legacy_cr"
  by (rule C10_falsy_version_returns [of 2 legacy_cr])

text \<open>
  C9. The repair step for the settings views deletes only the incompatible views (model
  \<open>res.config.settings\<close>, a parent reference that is not null, a definition matching one
  of the four deprecated patterns) and the views that inherit from one of them, directly
  or not, together with the metadata rows of the deleted views. Every other view row and
  every other metadata row stays as it was, and so does every other table.
\<close>

theorem C9_only_condemned_views_deleted:
  "(fix_incompatible_settings_views depth cr = Inr cr' \<longrightarrow>
      db cr' = without_views (condemned (views_of (db cr))) (db cr)
      \<and> views_of (db cr')
        = filter (\<lambda>r. view_id r \<notin> condemned (views_of (db cr))) (views_of (db cr))
      \<and> condemned (views_of (db cr)) \<subseteq> view_id ` set (views_of (db cr))
      \<and> ir_cron (db cr') = ir_cron (db cr)
      \<and> account_edi_document (db cr') = account_edi_document (db cr)
      \<and> ir_model (db cr') = ir_model (db cr)
      \<and> ir_model_access (db cr') = ir_model_access (db cr))
   \<and> (view_tables_exist (db cr) \<and> acyclic (inherits (views_of (db cr))) \<longrightarrow>
        (\<exists>depth. \<forall>depth' \<ge> depth. \<exists>cr'. fix_incompatible_settings_views depth' cr = Inr cr'))"
proof (intro conjI impI)
  assume "fix_incompatible_settings_views depth cr = Inr cr'"
  from fix_incompatible_settings_views_effect [OF this]
  have eff: "db cr' = without_views (condemned (views_of (db cr))) (db cr)" .
  then show "db cr' = without_views (condemned (views_of (db cr))) (db cr)" .
  from eff show "views_of (db cr')
        = filter (\<lambda>r. view_id r \<notin> condemned (views_of (db cr))) (views_of (db cr))"
    by (simp add: views_of_without)
  show "condemned (views_of (db cr)) \<subseteq> view_id ` set (views_of (db cr))"
    by (rule condemned_ids)
  from eff show "ir_cron (db cr') = ir_cron (db cr)"
    and "account_edi_document (db cr') = account_edi_document (db cr)"
    and "ir_model (db cr') = ir_model (db cr)"
    and "ir_model_access (db cr') = ir_model_access (db cr)"
    by (simp_all add: without_views_def)
next
  assume "view_tables_exist (db cr) \<and> acyclic (inherits (views_of (db cr)))"
  then show "\<exists>depth. \<forall>depth' \<ge> depth. \<exists>cr'. fix_incompatible_settings_views depth' cr = Inr cr'"
    using fix_incompatible_settings_views_succeeds by blast
qed

text \<open>
  On \<open>tree_cr\<close> only view 2 is incompatible, and view 4 inherits from it: the step
  deletes these two views and the metadata row of view 2, and nothing else.
\<close>

theorem C9_only_condemned_views_deleted_witness:
  "fix_incompatible_settings_views 2 tree_cr =
     Inr \<lparr>db = tree_fixed_db,
          executed =
            [Select_settings_views (problematic_patterns ! 0),
             Select_child_views 2,
             Select_child_views 4, Delete_ir_model_data_view 4, Delete_ir_ui_view 4,
             Delete_ir_model_data_view 2, Delete_ir_ui_view 2,
             Select_settings_views (problematic_patterns ! 1),
             Select_settings_views (problematic_patterns ! 2),
             Select_settings_views (problematic_patterns ! 3)]\<rparr>
   \<and> tree_fixed_db = without_views (condemned tree_views) (db tree_cr)
   \<and> views_of tree_fixed_db = filter (\<lambda>r. view_id r \<notin> condemned tree_views) tree_views
   \<and> view_tables_exist (db tree_cr) \<and> acyclic (inherits (views_of (db tree_cr)))
   \<and> (\<exists>depth cr'. fix_incompatible_settings_views depth tree_cr = Inr cr')"
proof -
  have V: "views_of (db tree_cr) = tree_views" by (simp add: views_of_def tree_cr_def)
  have h1: "view_tables_exist (db tree_cr)"
    by (simp add: view_tables_exist_def tree_cr_def)
  have h2: "acyclic (inherits (views_of (db tree_cr)))" by (rule tree_acyclic)
  note run = tree_fix_run
  note inst = C9_only_condemned_views_deleted [of 2 tree_cr, unfolded V]
  from inst [THEN conjunct1, THEN mp, OF run]
  have a: "tree_fixed_db = without_views (condemned tree_views) (db tree_cr)"
    and b: "views_of tree_fixed_db = filter (\<lambda>r. view_id r \<notin> condemned tree_views) tree_views"
    by (simp_all only: cursor.simps)
  from run have c: "\<exists>depth cr'. fix_incompatible_settings_views depth tree_cr = Inr cr'"
    by (intro exI)
  from run a b h1 h2 c show ?thesis by (intro conjI)
qed

text \<open>
  C4. Running the migration a second time, on the database that the first run returned,
  changes nothing: the second run returns, and its database is the database after the
  first run. The second run needs no stack for the cascade, since no view is left to
  delete.
\<close>

theorem C4_migrate_idempotent:
  assumes "migrate depth cr version = Inr cr1"
  shows "\<exists>cr2. migrate depth' cr1 version = Inr cr2 \<and> db cr2 = db cr1"
proof (cases "falsy_version version")
  case True
  then show ?thesis by (simp add: migrate_def)
next
  case False
  from migrate_repaired [OF assms False] show ?thesis
    by (intro migrate_on_repaired) simp_all
qed

theorem C4_migrate_idempotent_witness:
  "migrate 2 legacy_cr (Some ''17.0.1.3'') =
     Inr \<lparr>db = migrated_db,
          executed =
            [Update_ir_cron_active, Select_exists_account_edi_document,
             Update_noupdate_edi_fatturaPA, Update_noupdate_edi_formats,
             Select_ir_model_wizard, Delete_ir_model_access_wizard, Delete_ir_model_data_wizard,
             Select_settings_views (problematic_patterns ! 0),
             Select_child_views 2,
             Select_child_views 4, Delete_ir_model_data_view 4, Delete_ir_ui_view 4,
             Delete_ir_model_data_view 2, Delete_ir_ui_view 2,
             Select_settings_views (problematic_patterns ! 1),
             Select_settings_views (problematic_patterns ! 2),
             Select_settings_views (problematic_patterns ! 3)]\<rparr>
   \<and> (\<exists>cr2. migrate 2
         \<lparr>db = migrated_db,
          executed =
            [Update_ir_cron_active, Select_exists_account_edi_document,
             Update_noupdate_edi_fatturaPA, Update_noupdate_edi_formats,
             Select_ir_model_wizard, Delete_ir_model_access_wizard, Delete_ir_model_data_wizard,
             Select_settings_views (problematic_patterns ! 0),
             Select_child_views 2,
             Select_child_views 4, Delete_ir_model_data_view 4, Delete_ir_ui_view 4,
             Delete_ir_model_data_view 2, Delete_ir_ui_view 2,
             Select_settings_views (problematic_patterns ! 1),
             Select_settings_views (problematic_patterns ! 2),
             Select_settings_views (problematic_patterns ! 3)]\<rparr>
         (Some ''17.0.1.3'') = Inr cr2 \<and> db cr2 = migrated_db)"
  using C4_migrate_idempotent [OF legacy_run, of 2] legacy_run by simp

text \<open>
  C5. The specification has it that each of the four repair steps first checks an existence precondition and
  executes nothing more when it is absent, so that missing tables or rows never cause an
  SQL error.

  What the code does: the steps for the EDI formats and for \<open>project.delete.wizard\<close> start with
  an existence check (the table \<open>account_edi_document\<close>; a row of \<open>ir_model\<close>) and
  execute nothing else when it fails. The steps for the cron jobs and for the settings
  views have no such check: the first issues its \<open>UPDATE\<close> at once and the second one
  query for each pattern; when no row matches they change nothing. None of this raises,
  provided the tables that a step names without a check exist.
\<close>

theorem C5_guarded_steps:
  "(account_edi_document (db cr) = None \<longrightarrow>
      (\<exists>cr'. fix_edi_format_noupdate cr = Inr cr' \<and> db cr' = db cr
         \<and> executed cr' = executed cr @ [Select_exists_account_edi_document]))
   \<and> (ir_model (db cr) = Some models \<and> wizard_ids models = [] \<longrightarrow>
      (\<exists>cr'. fix_project_delete_wizard cr = Inr cr' \<and> db cr' = db cr
         \<and> executed cr' = executed cr @ [Select_ir_model_wizard]))
   \<and> (cron_repaired (db cr) \<longrightarrow>
      (\<exists>cr'. fix_fatturapa_cron cr = Inr cr' \<and> db cr' = db cr
         \<and> executed cr' = executed cr @ [Update_ir_cron_active]))
   \<and> (views_repaired (db cr) \<longrightarrow>
      (\<exists>cr'. fix_incompatible_settings_views depth cr = Inr cr' \<and> db cr' = db cr
         \<and> executed cr' = executed cr @ map Select_settings_views problematic_patterns))"
proof (intro conjI impI)
  assume "account_edi_document (db cr) = None"
  then show "\<exists>cr'. fix_edi_format_noupdate cr = Inr cr' \<and> db cr' = db cr
         \<and> executed cr' = executed cr @ [Select_exists_account_edi_document]"
    by (simp add: fix_edi_format_noupdate_def select_exists_account_edi_document_def execute_def)
next
  assume "ir_model (db cr) = Some models \<and> wizard_ids models = []"
  then show "\<exists>cr'. fix_project_delete_wizard cr = Inr cr' \<and> db cr' = db cr
         \<and> executed cr' = executed cr @ [Select_ir_model_wizard]"
    by (simp add: fix_project_delete_wizard_def select_ir_model_wizard_def execute_def)
next
  assume "cron_repaired (db cr)"
  then show "\<exists>cr'. fix_fatturapa_cron cr = Inr cr' \<and> db cr' = db cr
         \<and> executed cr' = executed cr @ [Update_ir_cron_active]"
    by (rule fix_fatturapa_cron_repaired)
next
  assume "views_repaired (db cr)"
  then show "\<exists>cr'. fix_incompatible_settings_views depth cr = Inr cr' \<and> db cr' = db cr
         \<and> executed cr' = executed cr @ map Select_settings_views problematic_patterns"
    by (rule fix_incompatible_settings_views_repaired)
qed

theorem C5_guarded_steps_witness:
  "account_edi_document (db tree_cr) = None
   \<and> fix_edi_format_noupdate tree_cr
     = Inr \<lparr>db = db tree_cr, executed = [Select_exists_account_edi_document]\<rparr>
   \<and> ir_model (db tree_cr) = Some [] \<and> wizard_ids [] = []
   \<and> fix_project_delete_wizard tree_cr
     = Inr \<lparr>db = db tree_cr, executed = [Select_ir_model_wizard]\<rparr>
   \<and> cron_repaired (db tree_cr)
   \<and> fix_fatturapa_cron tree_cr = Inr \<lparr>db = db tree_cr, executed = [Update_ir_cron_active]\<rparr>
   \<and> views_repaired tree_fixed_db
   \<and> fix_incompatible_settings_views 0 \<lparr>db = tree_fixed_db, executed = []\<rparr>
     = Inr \<lparr>db = tree_fixed_db, executed = map Select_settings_views problematic_patterns\<rparr>"
proof -
  have h1: "account_edi_document (db tree_cr) = None" by (simp add: tree_cr_def)
  have h2: "ir_model (db tree_cr) = Some [] \<and> wizard_ids [] = []"
    by (simp add: tree_cr_def wizard_ids_def)
  have h3: "cron_repaired (db tree_cr)" by (simp add: tree_cr_def cron_repaired_def)
  have h4: "views_repaired tree_fixed_db" by code_simp
  have h4': "views_repaired (db \<lparr>db = tree_fixed_db, executed = []\<rparr>)" using h4 by simp
  have e: "executed tree_cr = []" by (simp add: tree_cr_def)
  have eq: "cr' = \<lparr>db = d, executed = ex\<rparr>" if "db cr' = d" "executed cr' = ex"
    for cr' :: cursor and d ex
    using that by (cases cr') simp
  note A = C5_guarded_steps [of tree_cr "[]" 0]
  note B = C5_guarded_steps [of "\<lparr>db = tree_fixed_db, executed = []\<rparr>" "[]" 0]
  from A [THEN conjunct1, THEN mp, OF h1] obtain c1 where
    c1: "fix_edi_format_noupdate tree_cr = Inr c1" "db c1 = db tree_cr"
      "executed c1 = executed tree_cr @ [Select_exists_account_edi_document]" by blast
  have "c1 = \<lparr>db = db tree_cr, executed = [Select_exists_account_edi_document]\<rparr>"
    by (rule eq) (simp_all only: c1 e append_Nil)
  with c1(1) have r1: "fix_edi_format_noupdate tree_cr
     = Inr \<lparr>db = db tree_cr, executed = [Select_exists_account_edi_document]\<rparr>" by simp
  from A [THEN conjunct2, THEN conjunct1, THEN mp, OF h2] obtain c2 where
    c2: "fix_project_delete_wizard tree_cr = Inr c2" "db c2 = db tree_cr"
      "executed c2 = executed tree_cr @ [Select_ir_model_wizard]" by blast
  have "c2 = \<lparr>db = db tree_cr, executed = [Select_ir_model_wizard]\<rparr>"
    by (rule eq) (simp_all only: c2 e append_Nil)
  with c2(1) have r2: "fix_project_delete_wizard tree_cr
     = Inr \<lparr>db = db tree_cr, executed = [Select_ir_model_wizard]\<rparr>" by simp
  from A [THEN conjunct2, THEN conjunct2, THEN conjunct1, THEN mp, OF h3] obtain c3 where
    c3: "fix_fatturapa_cron tree_cr = Inr c3" "db c3 = db tree_cr"
      "executed c3 = executed tree_cr @ [Update_ir_cron_active]" by blast
  have "c3 = \<lparr>db = db tree_cr, executed = [Update_ir_cron_active]\<rparr>"
    by (rule eq) (simp_all only: c3 e append_Nil)
  with c3(1) have r3: "fix_fatturapa_cron tree_cr
     = Inr \<lparr>db = db tree_cr, executed = [Update_ir_cron_active]\<rparr>" by simp
  from B [THEN conjunct2, THEN conjunct2, THEN conjunct2, THEN mp, OF h4'] obtain c4 where
    c4: "fix_incompatible_settings_views 0 \<lparr>db = tree_fixed_db, executed = []\<rparr> = Inr c4"
      "db c4 = db \<lparr>db = tree_fixed_db, executed = []\<rparr>"
      "executed c4 = executed \<lparr>db = tree_fixed_db, executed = []\<rparr>
                       @ map Select_settings_views problematic_patterns" by blast
  have "c4 = \<lparr>db = tree_fixed_db, executed = map Select_settings_views problematic_patterns\<rparr>"
    by (rule eq) (simp_all only: c4 cursor.simps append_Nil)
  with c4(1) have r4: "fix_incompatible_settings_views 0 \<lparr>db = tree_fixed_db, executed = []\<rparr>
     = Inr \<lparr>db = tree_fixed_db, executed = map Select_settings_views problematic_patterns\<rparr>"
    by simp
  from h1 r1 h2 r2 h3 r3 h4 r4 show ?thesis by (intro conjI) simp_all
qed

text \<open>
  Without the table \<open>ir_cron\<close> the first step fails, and with an empty \<open>ir_cron\<close> the
  statement it executes is the \<open>UPDATE\<close> itself, not a check; without \<open>ir_ui_view\<close> the
  fourth step fails.
\<close>

theorem C5_counterexample:
  "fix_fatturapa_cron (tree_cr\<lparr>db := (db tree_cr)\<lparr>ir_cron := None\<rparr>\<rparr>) = Inl UndefinedTable
   \<and> fix_fatturapa_cron tree_cr = Inr (tree_cr\<lparr>executed := [Update_ir_cron_active]\<rparr>)
   \<and> fix_incompatible_settings_views 5 (tree_cr\<lparr>db := (db tree_cr)\<lparr>ir_ui_view := None\<rparr>\<rparr>)
     = Inl UndefinedTable"
  by code_simp

end
